theory Spec2Isabelle
  imports Main "HOL-Library.Word"
begin

section \<open>Data model of memory\_manager.c\<close>

text \<open>
  Addresses are byte addresses, as natural numbers; the null pointer is address 0.
  The region is one object of the C program, so that the address arithmetic inside
  it (\<open>&p->memory[bytes]\<close>, \<open>linked_list + heap_size\<close>) does not wrap.
  \<open>size_t\<close> is a 64-bit unsigned integer whose arithmetic wraps, \<open>unsigned\<close> a
  32-bit one (LP64), so that \<open>sizeof(struct node_t)\<close> is 32: two pointers, the flag
  with its padding, the size.
\<close>

type_synonym addr = nat
type_synonym size_t = "64 word"

record node_t =
  node_next :: addr
  node_prev :: addr
  node_free :: "32 word"
  node_size :: size_t

definition header_size :: size_t where
  "header_size = 32"

definition MINIMUM_FREE_BLOCK :: size_t where
  "MINIMUM_FREE_BLOCK = 32"

definition MINIMUM_HEAP_SIZE :: size_t where
  "MINIMUM_HEAP_SIZE = 1024"

text \<open>\<open>p->memory\<close>: the payload starts right after the header.\<close>

definition memory_of :: "addr \<Rightarrow> addr" where
  "memory_of p = p + unat header_size"

text \<open>The function pointer \<open>allocate\<close>; it is null until \<open>initialise\<close> sets it.\<close>

datatype algorithm = Unset | First_Fit | Next_Fit | Best_Fit | Worst_Fit

text \<open>
  The state of the process: the headers that were written into the region, keyed by
  their address (\<open>heap\<close>), the payload bytes (\<open>bytes\<close>), the static variables of the
  file, and what was printed on the standard error stream.  Headers and payload
  bytes are kept apart: \<open>memset\<close> on a payload writes \<open>bytes\<close> only.  No function of
  the file erases a header, so the header of an absorbed block stays in \<open>heap\<close>; it
  is no longer reached from \<open>linked_list\<close>.  The mutex is not part of the model:
  every public operation is one critical section, and the model runs them one after
  the other.
\<close>

record state =
  heap :: "addr \<Rightarrow> node_t option"
  bytes :: "addr \<Rightarrow> 8 word"
  linked_list :: addr
  next_node :: addr
  heap_size :: size_t
  allocate :: algorithm
  stderr :: "string list"

text \<open>
  A failed \<open>assert\<close>, a read or write through a pointer that holds no header
  (the null pointer included), and \<open>exit(EXIT_FAILURE)\<close>.
\<close>

datatype error = Assert_Failed | Fault | Exit_Failure

type_synonym 'a comp = "state \<Rightarrow> error + ('a \<times> state)"

definition ret :: "'a \<Rightarrow> 'a comp" where
  "ret x s = Inr (x, s)"

definition fail :: "error \<Rightarrow> 'a comp" where
  "fail e s = Inl e"

definition bnd :: "'a comp \<Rightarrow> ('a \<Rightarrow> 'b comp) \<Rightarrow> 'b comp" where
  "bnd m f s = (case m s of Inl e \<Rightarrow> Inl e | Inr (x, s') \<Rightarrow> f x s')"

definition assert_c :: "bool \<Rightarrow> unit comp" where
  "assert_c b = (if b then ret () else fail Assert_Failed)"

definition when_c :: "bool \<Rightarrow> unit comp \<Rightarrow> unit comp" where
  "when_c b m = (if b then m else ret ())"

text \<open>Reading the header at \<open>p\<close>, and writing one of its fields.\<close>

definition rd :: "addr \<Rightarrow> node_t comp" where
  "rd p s = (if p = 0 then Inl Fault
             else case heap s p of None \<Rightarrow> Inl Fault | Some n \<Rightarrow> Inr (n, s))"

definition wr :: "addr \<Rightarrow> (node_t \<Rightarrow> node_t) \<Rightarrow> unit comp" where
  "wr p f s = (if p = 0 then Inl Fault
               else case heap s p of None \<Rightarrow> Inl Fault
                    | Some n \<Rightarrow> Inr ((), s\<lparr>heap := (heap s)(p \<mapsto> f n)\<rparr>))"

definition get_next :: "addr \<Rightarrow> addr comp" where
  "get_next p = bnd (rd p) (\<lambda>n. ret (node_next n))"

definition get_prev :: "addr \<Rightarrow> addr comp" where
  "get_prev p = bnd (rd p) (\<lambda>n. ret (node_prev n))"

definition get_free :: "addr \<Rightarrow> 32 word comp" where
  "get_free p = bnd (rd p) (\<lambda>n. ret (node_free n))"

definition get_size :: "addr \<Rightarrow> size_t comp" where
  "get_size p = bnd (rd p) (\<lambda>n. ret (node_size n))"

definition set_next :: "addr \<Rightarrow> addr \<Rightarrow> unit comp" where
  "set_next p v = wr p (\<lambda>n. n\<lparr>node_next := v\<rparr>)"

definition set_prev :: "addr \<Rightarrow> addr \<Rightarrow> unit comp" where
  "set_prev p v = wr p (\<lambda>n. n\<lparr>node_prev := v\<rparr>)"

definition set_free :: "addr \<Rightarrow> 32 word \<Rightarrow> unit comp" where
  "set_free p v = wr p (\<lambda>n. n\<lparr>node_free := v\<rparr>)"

definition set_size :: "addr \<Rightarrow> size_t \<Rightarrow> unit comp" where
  "set_size p v = wr p (\<lambda>n. n\<lparr>node_size := v\<rparr>)"

definition get_next_node :: "addr comp" where
  "get_next_node s = Inr (next_node s, s)"

definition set_next_node :: "addr \<Rightarrow> unit comp" where
  "set_next_node v s = Inr ((), s\<lparr>next_node := v\<rparr>)"

text \<open>\<open>memset(a, 0, n)\<close> on the payload bytes.\<close>

definition memset0 :: "addr \<Rightarrow> size_t \<Rightarrow> unit comp" where
  "memset0 a n s =
     Inr ((), s\<lparr>bytes := (\<lambda>x. if a \<le> x \<and> x < a + unat n then 0 else bytes s x)\<rparr>)"

definition fprintf_stderr :: "string \<Rightarrow> unit comp" where
  "fprintf_stderr msg s = Inr ((), s\<lparr>stderr := stderr s @ [msg]\<rparr>)"

section \<open>Common functions\<close>

text \<open>\<open>create_node\<close> writes a fresh header at \<open>memory\<close>.\<close>

definition create_node :: "addr \<Rightarrow> size_t \<Rightarrow> addr comp" where
  "create_node memory sz =
     bnd (assert_c (memory \<noteq> 0)) (\<lambda>_.
     bnd (assert_c (header_size < sz)) (\<lambda>_.
     bnd (\<lambda>s. Inr ((), s\<lparr>heap := (heap s)(memory \<mapsto>
            \<lparr>node_next = 0, node_prev = 0, node_free = 1,
             node_size = sz - header_size\<rparr>)\<rparr>)) (\<lambda>_.
     ret memory)))"

definition allocate_node :: "addr \<Rightarrow> size_t \<Rightarrow> addr comp" where
  "allocate_node p nbytes =
     bnd (assert_c (p \<noteq> 0)) (\<lambda>_.
     bnd (assert_c (0 < nbytes)) (\<lambda>_.
     bnd (get_size p) (\<lambda>psz.
     bnd (ret (psz - nbytes)) (\<lambda>remaining.
     bnd (when_c (header_size + MINIMUM_FREE_BLOCK \<le> remaining)
           (bnd (create_node (memory_of p + unat nbytes) remaining) (\<lambda>node.
            bnd (get_next p) (\<lambda>pn.
            bnd (set_next node pn) (\<lambda>_.
            bnd (set_prev node p) (\<lambda>_.
            bnd (get_next node) (\<lambda>nn.
            bnd (when_c (nn \<noteq> 0) (set_prev nn node)) (\<lambda>_.
            bnd (set_next p node) (\<lambda>_.
            set_size p nbytes))))))))) (\<lambda>_.
     bnd (set_free p 0) (\<lambda>_.
     bnd (get_size p) (\<lambda>psz'.
     bnd (memset0 (memory_of p) psz') (\<lambda>_.
     ret p))))))))"

definition merge_prev :: "addr \<Rightarrow> addr comp" where
  "merge_prev p =
     bnd (assert_c (p \<noteq> 0)) (\<lambda>_.
     bnd (get_prev p) (\<lambda>q.
     bnd (get_next p) (\<lambda>pn.
     bnd (set_next q pn) (\<lambda>_.
     bnd (get_prev p) (\<lambda>q.
     bnd (get_size p) (\<lambda>psz.
     bnd (wr q (\<lambda>n. n\<lparr>node_size := node_size n + (header_size + psz)\<rparr>)) (\<lambda>_.
     bnd (get_next p) (\<lambda>pn.
     bnd (when_c (pn \<noteq> 0)
           (bnd (get_prev p) (\<lambda>q. set_prev pn q))) (\<lambda>_.
     get_prev p)))))))))"

definition merge_next :: "addr \<Rightarrow> addr comp" where
  "merge_next p =
     bnd (assert_c (p \<noteq> 0)) (\<lambda>_.
     bnd (get_next p) (\<lambda>pn.
     bnd (get_size pn) (\<lambda>nsz.
     bnd (wr p (\<lambda>n. n\<lparr>node_size := node_size n + (header_size + nsz)\<rparr>)) (\<lambda>_.
     bnd (get_next p) (\<lambda>pn.
     bnd (get_next pn) (\<lambda>pnn.
     bnd (set_next p pnn) (\<lambda>_.
     bnd (get_next p) (\<lambda>pn.
     bnd (when_c (pn \<noteq> 0) (set_prev pn p)) (\<lambda>_.
     ret p)))))))))"

text \<open>
  \<open>initialise\<close>; \<open>algorithm\<close> is a C string or the null pointer.  The four names are
  the macros of memory\_manager.h.
\<close>

definition FIRSTFIT :: string where "FIRSTFIT = ''FirstFit''"
definition NEXTFIT :: string where "NEXTFIT = ''NextFit''"
definition BESTFIT :: string where "BESTFIT = ''BestFit''"
definition WORSTFIT :: string where "WORSTFIT = ''WorstFit''"

definition initialise :: "addr \<Rightarrow> size_t \<Rightarrow> string option \<Rightarrow> unit comp" where
  "initialise memory sz algo =
     bnd (assert_c (memory \<noteq> 0)) (\<lambda>_.
     bnd (assert_c (MINIMUM_HEAP_SIZE < sz)) (\<lambda>_.
     bnd (create_node memory sz) (\<lambda>p.
     bnd (\<lambda>s. Inr ((), s\<lparr>heap_size := sz\<rparr>)) (\<lambda>_.
     bnd (\<lambda>s. Inr ((), s\<lparr>linked_list := p\<rparr>)) (\<lambda>_.
     bnd (set_next_node 0) (\<lambda>_.
     if algo = None \<or> algo = Some FIRSTFIT then (\<lambda>s. Inr ((), s\<lparr>allocate := First_Fit\<rparr>))
     else if algo = Some NEXTFIT then (\<lambda>s. Inr ((), s\<lparr>allocate := Next_Fit\<rparr>))
     else if algo = Some BESTFIT then (\<lambda>s. Inr ((), s\<lparr>allocate := Best_Fit\<rparr>))
     else if algo = Some WORSTFIT then (\<lambda>s. Inr ((), s\<lparr>allocate := Worst_Fit\<rparr>))
     else bnd (fprintf_stderr (''Error : Unknown algorithm type'' @ [CHR 0x0A])) (\<lambda>_.
          fail Exit_Failure)))))))"

text \<open>
  \<open>a && b\<close> where \<open>b\<close> reads memory: \<open>b\<close> is evaluated only when \<open>a\<close> holds.
  In \<open>deallocate\<close>, \<open>((struct node_t*)memory) - 1\<close> is the address 32 bytes below
  \<open>memory\<close>; an address below 32 gives the null pointer, whose read is a fault.
\<close>

definition and_c :: "bool \<Rightarrow> bool comp \<Rightarrow> bool comp" where
  "and_c a b = (if a then b else ret False)"

definition deallocate :: "addr \<Rightarrow> unit comp" where
  "deallocate memory =
     bnd (\<lambda>s. assert_c (linked_list s \<noteq> 0) s) (\<lambda>_.
     if memory = 0 then ret ()
     else
     bnd (\<lambda>s. assert_c (linked_list s \<le> memory \<and>
                         memory < linked_list s + unat (heap_size s)) s) (\<lambda>_.
     bnd (ret (memory - unat header_size)) (\<lambda>p.
     bnd (get_free p) (\<lambda>f.
     if f \<noteq> 0 then fprintf_stderr (''Error : memory already free'' @ [CHR 0x0A])
     else
     bnd (set_free p 1) (\<lambda>_.
     bnd (get_prev p) (\<lambda>q.
     bnd (and_c (q \<noteq> 0) (bnd (get_free q) (\<lambda>qf. ret (qf \<noteq> 0)))) (\<lambda>c.
     bnd (if c then
            bnd get_next_node (\<lambda>nn.
            bnd (when_c (nn = p) (bnd (get_next p) set_next_node)) (\<lambda>_.
            merge_prev p))
          else ret p) (\<lambda>p.
     bnd (get_next p) (\<lambda>pn.
     bnd (and_c (pn \<noteq> 0) (bnd (get_free pn) (\<lambda>nf. ret (nf \<noteq> 0)))) (\<lambda>c.
     when_c c
       (bnd get_next_node (\<lambda>nn.
        bnd (get_next p) (\<lambda>pn.
        bnd (when_c (nn = pn) (bnd (get_next pn) set_next_node)) (\<lambda>_.
        bnd (merge_next p) (\<lambda>_. ret ())))))))))))))))"

section \<open>Validation\<close>

definition validate_node :: "addr \<Rightarrow> unit comp" where
  "validate_node p =
     bnd (get_next p) (\<lambda>pn.
     bnd (if pn = 0 then ret True else bnd (get_prev pn) (\<lambda>x. ret (x = p))) (\<lambda>ok1.
     bnd (assert_c ok1) (\<lambda>_.
     bnd (get_prev p) (\<lambda>q.
     bnd (if q = 0 then ret True else bnd (get_next q) (\<lambda>x. ret (x = p))) (\<lambda>ok2.
     bnd (assert_c ok2) (\<lambda>_.
     bnd (get_size p) (\<lambda>psz.
     assert_c (0 < psz))))))))"

text \<open>
  The loops of the file follow \<open>next\<close> pointers and need not end on a list that runs
  into a cycle, so they are partial functions: \<open>None\<close> is a loop that never exits.
\<close>

partial_function (option) validate_loop ::
  "addr \<Rightarrow> size_t \<Rightarrow> state \<Rightarrow> (error + (unit \<times> state)) option" where
  "validate_loop p counter s =
     (if p \<noteq> 0 then
        (case validate_node p s of Inl e \<Rightarrow> Some (Inl e)
         | Inr (_, s1) \<Rightarrow>
            (case get_size p s1 of Inl e \<Rightarrow> Some (Inl e)
             | Inr (psz, s2) \<Rightarrow>
                (case get_next p s2 of Inl e \<Rightarrow> Some (Inl e)
                 | Inr (pn, s3) \<Rightarrow> validate_loop pn (counter + (psz + header_size)) s3)))
      else Some (assert_c (counter = heap_size s) s))"

definition validate :: "state \<Rightarrow> (error + (unit \<times> state)) option" where
  "validate s = validate_loop (linked_list s) 0 s"

section \<open>Allocation algorithms\<close>

partial_function (option) first_fit_loop ::
  "size_t \<Rightarrow> addr \<Rightarrow> state \<Rightarrow> (error + (addr \<times> state)) option" where
  "first_fit_loop nbytes p s =
     (if p \<noteq> 0 then
        (case rd p s of Inl e \<Rightarrow> Some (Inl e)
         | Inr (n, s1) \<Rightarrow>
            if node_free n \<noteq> 0 \<and> nbytes \<le> node_size n
            then Some (bnd (allocate_node p nbytes) (\<lambda>_. ret (memory_of p)) s1)
            else first_fit_loop nbytes (node_next n) s1)
      else Some (Inr (0, s)))"

definition allocate_first_fit :: "size_t \<Rightarrow> state \<Rightarrow> (error + (addr \<times> state)) option" where
  "allocate_first_fit nbytes s =
     (if \<not> 0 < nbytes then Some (Inl Assert_Failed)
      else if linked_list s = 0 then Some (Inl Assert_Failed)
      else first_fit_loop nbytes (linked_list s) s)"

text \<open>
  The \<open>do ... while (p != posn)\<close> loop of next-fit: the body runs before the test.
\<close>

partial_function (option) next_fit_loop ::
  "size_t \<Rightarrow> addr \<Rightarrow> addr \<Rightarrow> state \<Rightarrow> (error + (addr \<times> state)) option" where
  "next_fit_loop nbytes posn p s =
     (case rd p s of Inl e \<Rightarrow> Some (Inl e)
      | Inr (n, s1) \<Rightarrow>
         if node_free n \<noteq> 0 \<and> nbytes \<le> node_size n
         then Some (bnd (allocate_node p nbytes) (\<lambda>_.
                    bnd (get_next p) (\<lambda>pn.
                    bnd (set_next_node pn) (\<lambda>_.
                    ret (memory_of p)))) s1)
         else (let p' = (if node_next n = 0 then linked_list s1 else node_next n)
               in if p' \<noteq> posn then next_fit_loop nbytes posn p' s1
                  else Some (Inr (0, s1))))"

definition allocate_next_fit :: "size_t \<Rightarrow> state \<Rightarrow> (error + (addr \<times> state)) option" where
  "allocate_next_fit nbytes s =
     (if \<not> 0 < nbytes then Some (Inl Assert_Failed)
      else let p = (if next_node s = 0 then linked_list s else next_node s)
           in if p = 0 then Some (Inl Assert_Failed)
              else next_fit_loop nbytes p p s)"

text \<open>
  The scans of best-fit and worst-fit only read; they return the block they chose
  (the null pointer when there is none).
\<close>

partial_function (option) best_fit_loop ::
  "size_t \<Rightarrow> addr \<Rightarrow> size_t \<Rightarrow> addr \<Rightarrow> state \<Rightarrow> (error + addr) option" where
  "best_fit_loop nbytes p sz smallest s =
     (if p \<noteq> 0 then
        (case rd p s of Inl e \<Rightarrow> Some (Inl e)
         | Inr (n, _) \<Rightarrow>
            if node_free n \<noteq> 0 \<and> nbytes \<le> node_size n \<and> node_size n < sz
            then best_fit_loop nbytes (node_next n) (node_size n) p s
            else best_fit_loop nbytes (node_next n) sz smallest s)
      else Some (Inr smallest))"

definition allocate_best_fit :: "size_t \<Rightarrow> state \<Rightarrow> (error + (addr \<times> state)) option" where
  "allocate_best_fit nbytes s =
     (if \<not> 0 < nbytes then Some (Inl Assert_Failed)
      else if linked_list s = 0 then Some (Inl Assert_Failed)
      else case best_fit_loop nbytes (linked_list s) (heap_size s) 0 s of
             None \<Rightarrow> None
           | Some (Inl e) \<Rightarrow> Some (Inl e)
           | Some (Inr smallest) \<Rightarrow>
               if smallest \<noteq> 0
               then Some (bnd (allocate_node smallest nbytes) (\<lambda>p. ret (memory_of p)) s)
               else Some (Inr (0, s)))"

partial_function (option) worst_fit_loop ::
  "addr \<Rightarrow> size_t \<Rightarrow> addr \<Rightarrow> state \<Rightarrow> (error + addr) option" where
  "worst_fit_loop p sz largest s =
     (if p \<noteq> 0 then
        (case rd p s of Inl e \<Rightarrow> Some (Inl e)
         | Inr (n, _) \<Rightarrow>
            if node_free n \<noteq> 0 \<and> sz < node_size n
            then worst_fit_loop (node_next n) (node_size n) p s
            else worst_fit_loop (node_next n) sz largest s)
      else Some (Inr largest))"

definition allocate_worst_fit :: "size_t \<Rightarrow> state \<Rightarrow> (error + (addr \<times> state)) option" where
  "allocate_worst_fit nbytes s =
     (if \<not> 0 < nbytes then Some (Inl Assert_Failed)
      else if linked_list s = 0 then Some (Inl Assert_Failed)
      else case worst_fit_loop (linked_list s) (nbytes - 1) 0 s of
             None \<Rightarrow> None
           | Some (Inl e) \<Rightarrow> Some (Inl e)
           | Some (Inr largest) \<Rightarrow>
               if largest \<noteq> 0
               then Some (bnd (allocate_node largest nbytes) (\<lambda>p. ret (memory_of p)) s)
               else Some (Inr (0, s)))"

text \<open>A call through the function pointer \<open>allocate\<close>; calling a null pointer is a fault.\<close>

definition call_allocate :: "size_t \<Rightarrow> state \<Rightarrow> (error + (addr \<times> state)) option" where
  "call_allocate nbytes s =
     (case allocate s of
        Unset \<Rightarrow> Some (Inl Fault)
      | First_Fit \<Rightarrow> allocate_first_fit nbytes s
      | Next_Fit \<Rightarrow> allocate_next_fit nbytes s
      | Best_Fit \<Rightarrow> allocate_best_fit nbytes s
      | Worst_Fit \<Rightarrow> allocate_worst_fit nbytes s)"

section \<open>The block list and its invariants\<close>

definition is_free :: "(addr \<Rightarrow> node_t option) \<Rightarrow> addr \<Rightarrow> bool" where
  "is_free h a = (case h a of None \<Rightarrow> False | Some n \<Rightarrow> node_free n \<noteq> 0)"

definition size_at :: "(addr \<Rightarrow> node_t option) \<Rightarrow> addr \<Rightarrow> size_t" where
  "size_at h a = (case h a of None \<Rightarrow> 0 | Some n \<Rightarrow> node_size n)"

definition next_at :: "(addr \<Rightarrow> node_t option) \<Rightarrow> addr \<Rightarrow> addr" where
  "next_at h a = (case h a of None \<Rightarrow> 0 | Some n \<Rightarrow> node_next n)"

definition prev_at :: "(addr \<Rightarrow> node_t option) \<Rightarrow> addr \<Rightarrow> addr" where
  "prev_at h a = (case h a of None \<Rightarrow> 0 | Some n \<Rightarrow> node_prev n)"

text \<open>
  The blocks met from \<open>p\<close> along the \<open>next\<close> pointers up to the null pointer;
  \<open>None\<close> when the walk leaves the headers or never ends.
\<close>

partial_function (option) list_from :: "(addr \<Rightarrow> node_t option) \<Rightarrow> addr \<Rightarrow> addr list option" where
  "list_from h p =
     (if p = 0 then Some []
      else case h p of None \<Rightarrow> None
           | Some n \<Rightarrow> Option.bind (list_from h (node_next n)) (\<lambda>as. Some (p # as)))"

definition block_list :: "state \<Rightarrow> addr list option" where
  "block_list s = list_from (heap s) (linked_list s)"

text \<open>
  \<open>chain h pr as nx\<close>: the blocks \<open>as\<close> are linked in this order, the first one has
  \<open>prev = pr\<close> and the last one \<open>next = nx\<close>.
\<close>

fun chain :: "(addr \<Rightarrow> node_t option) \<Rightarrow> addr \<Rightarrow> addr list \<Rightarrow> addr \<Rightarrow> bool" where
  "chain h pr [] nx = True"
| "chain h pr (a # as) nx =
     (a \<noteq> 0 \<and>
      (case h a of None \<Rightarrow> False
       | Some n \<Rightarrow> node_prev n = pr \<and>
                  node_next n = (case as of [] \<Rightarrow> nx | b # _ \<Rightarrow> b) \<and>
                  chain h a as nx))"

text \<open>
  \<open>tiles h as e\<close>: every block has a positive size and ends where the next one
  starts, the last one at \<open>e\<close>.
\<close>

fun tiles :: "(addr \<Rightarrow> node_t option) \<Rightarrow> addr list \<Rightarrow> addr \<Rightarrow> bool" where
  "tiles h [] e = True"
| "tiles h (a # as) e =
     (case h a of None \<Rightarrow> False
      | Some n \<Rightarrow> 0 < node_size n \<and>
                 a + unat header_size + unat (node_size n) = (case as of [] \<Rightarrow> e | b # _ \<Rightarrow> b) \<and>
                 tiles h as e)"

fun no_adjacent_free :: "(addr \<Rightarrow> node_t option) \<Rightarrow> addr list \<Rightarrow> bool" where
  "no_adjacent_free h [] = True"
| "no_adjacent_free h [a] = True"
| "no_adjacent_free h (a # b # as) =
     (\<not> (is_free h a \<and> is_free h b) \<and> no_adjacent_free h (b # as))"

text \<open>The invariants 2, 4 and 6 of the data model, as \<open>validate\<close> states them.\<close>

definition doubly_linked :: "(addr \<Rightarrow> node_t option) \<Rightarrow> addr list \<Rightarrow> bool" where
  "doubly_linked h as =
     list_all (\<lambda>a. case h a of None \<Rightarrow> False
        | Some n \<Rightarrow>
           (node_next n = 0 \<or>
              (case h (node_next n) of None \<Rightarrow> False | Some m \<Rightarrow> node_prev m = a)) \<and>
           (node_prev n = 0 \<or>
              (case h (node_prev n) of None \<Rightarrow> False | Some m \<Rightarrow> node_next m = a))) as"

text \<open>What \<open>validate_node\<close> asserts of the block at \<open>a\<close>.\<close>

definition node_valid :: "(addr \<Rightarrow> node_t option) \<Rightarrow> addr \<Rightarrow> bool" where
  "node_valid h a =
     (case h a of None \<Rightarrow> False
      | Some n \<Rightarrow>
         (node_next n = 0 \<or>
            (case h (node_next n) of None \<Rightarrow> False | Some m \<Rightarrow> node_prev m = a)) \<and>
         (node_prev n = 0 \<or>
            (case h (node_prev n) of None \<Rightarrow> False | Some m \<Rightarrow> node_next m = a)) \<and>
         0 < node_size n)"

definition sizes_positive :: "(addr \<Rightarrow> node_t option) \<Rightarrow> addr list \<Rightarrow> bool" where
  "sizes_positive h as = list_all (\<lambda>a. h a \<noteq> None \<and> 0 < size_at h a) as"

definition total_bytes :: "(addr \<Rightarrow> node_t option) \<Rightarrow> addr list \<Rightarrow> nat" where
  "total_bytes h as = sum_list (map (\<lambda>a. unat header_size + unat (size_at h a)) as)"

text \<open>The sum as \<open>validate\<close> computes it, in \<open>size_t\<close>.\<close>

definition counter_of :: "(addr \<Rightarrow> node_t option) \<Rightarrow> addr list \<Rightarrow> size_t" where
  "counter_of h as = sum_list (map (\<lambda>a. size_at h a + header_size) as)"

text \<open>
  The structure of the list: the list from \<open>linked_list\<close> is \<open>as\<close>, it is doubly
  linked, it tiles the region from its base to its end, and \<open>next_node\<close> is null or
  one of its blocks.  The state between two operations has, moreover, no two free
  neighbours.
\<close>

definition well_formed :: "state \<Rightarrow> addr list \<Rightarrow> bool" where
  "well_formed s as =
     (as \<noteq> [] \<and> hd as = linked_list s \<and>
      chain (heap s) 0 as 0 \<and>
      tiles (heap s) as (linked_list s + unat (heap_size s)) \<and>
      (next_node s = 0 \<or> next_node s \<in> set as))"

definition invariant :: "state \<Rightarrow> addr list \<Rightarrow> bool" where
  "invariant s as = (well_formed s as \<and> no_adjacent_free (heap s) as)"

text \<open>The loops are executable through their recursion equations.\<close>

declare validate_loop.simps [code]
declare first_fit_loop.simps [code]
declare next_fit_loop.simps [code]
declare best_fit_loop.simps [code]
declare worst_fit_loop.simps [code]
declare list_from.simps [code]

section \<open>Coalescing, as the specification words it\<close>

text \<open>The neighbour before (after) the block \<open>b\<close> exists and is free.\<close>

definition prev_free :: "(addr \<Rightarrow> node_t option) \<Rightarrow> addr \<Rightarrow> bool" where
  "prev_free h b = (prev_at h b \<noteq> 0 \<and> is_free h (prev_at h b))"

definition next_free :: "(addr \<Rightarrow> node_t option) \<Rightarrow> addr \<Rightarrow> bool" where
  "next_free h b = (next_at h b \<noteq> 0 \<and> is_free h (next_at h b))"

text \<open>
  The cursor after merge-prev of \<open>b\<close>: if the cursor is \<open>b\<close> it becomes \<open>b.next\<close>.
  The cursor \<open>c\<close> after merge-next: if it is \<open>b.next\<close> it becomes \<open>b.next.next\<close>.
  All fields are those of the state before the release.
\<close>

definition cursor_merge_prev :: "state \<Rightarrow> addr \<Rightarrow> addr" where
  "cursor_merge_prev s b =
     (if prev_free (heap s) b \<and> next_node s = b then next_at (heap s) b else next_node s)"

definition cursor_merge_next :: "state \<Rightarrow> addr \<Rightarrow> addr \<Rightarrow> addr" where
  "cursor_merge_next s b c =
     (if next_free (heap s) b \<and> c = next_at (heap s) b
      then next_at (heap s) (next_at (heap s) b) else c)"

section \<open>Sequences of operations\<close>

text \<open>
  The structural invariants of the block list: the list from \<open>linked_list\<close> ends
  at the null pointer, is doubly linked, its sizes with their headers sum to
  \<open>heap_size\<close>, every size is positive, and no two neighbours are both free.
\<close>

definition structural_invariants :: "state \<Rightarrow> bool" where
  "structural_invariants s =
     (case block_list s of None \<Rightarrow> False
      | Some as \<Rightarrow>
          doubly_linked (heap s) as \<and>
          total_bytes (heap s) as = unat (heap_size s) \<and>
          sizes_positive (heap s) as \<and>
          no_adjacent_free (heap s) as)"

datatype op = Allocate size_t | Deallocate addr

text \<open>
  A run of the engine: the operations one after the other, until one of them fails.
\<close>

fun run :: "op list \<Rightarrow> state \<Rightarrow> (error + state) option" where
  "run [] s = Some (Inr s)"
| "run (Allocate n # ops) s =
     (case call_allocate n s of
        None \<Rightarrow> None
      | Some (Inl e) \<Rightarrow> Some (Inl e)
      | Some (Inr (_, s')) \<Rightarrow> run ops s')"
| "run (Deallocate m # ops) s =
     (case deallocate m s of Inl e \<Rightarrow> Some (Inl e) | Inr (_, s') \<Rightarrow> run ops s')"

text \<open>
  The caller's side of the contract along a run: a request is for at least one byte,
  and a release is of the null pointer or of the payload of a block that is on the
  list at that time.
\<close>

definition on_list :: "state \<Rightarrow> addr \<Rightarrow> bool" where
  "on_list s m =
     (case block_list s of None \<Rightarrow> False | Some as \<Rightarrow> m \<in> set (map memory_of as))"

fun within_contract :: "op list \<Rightarrow> state \<Rightarrow> bool" where
  "within_contract [] s = True"
| "within_contract (Allocate n # ops) s =
     (0 < n \<and>
      (case call_allocate n s of Some (Inr (_, s')) \<Rightarrow> within_contract ops s' | _ \<Rightarrow> True))"
| "within_contract (Deallocate m # ops) s =
     ((m = 0 \<or> on_list s m) \<and>
      (case deallocate m s of Inr (_, s') \<Rightarrow> within_contract ops s' | _ \<Rightarrow> True))"

section \<open>The selection policies on the list of blocks\<close>

text \<open>A free block that can serve a request of \<open>n\<close> bytes.\<close>

definition fits :: "(addr \<Rightarrow> node_t option) \<Rightarrow> size_t \<Rightarrow> addr \<Rightarrow> bool" where
  "fits h n a = (is_free h a \<and> n \<le> size_at h a)"

text \<open>
  The scans of best-fit and worst-fit over the blocks \<open>as\<close>, with the running
  bound \<open>sz\<close> and the running choice.
\<close>

fun best_scan :: "(addr \<Rightarrow> node_t option) \<Rightarrow> size_t \<Rightarrow> addr list \<Rightarrow> size_t \<Rightarrow> addr \<Rightarrow> addr" where
  "best_scan h n [] sz smallest = smallest"
| "best_scan h n (a # as) sz smallest =
     (if fits h n a \<and> size_at h a < sz then best_scan h n as (size_at h a) a
      else best_scan h n as sz smallest)"

fun worst_scan :: "(addr \<Rightarrow> node_t option) \<Rightarrow> addr list \<Rightarrow> size_t \<Rightarrow> addr \<Rightarrow> addr" where
  "worst_scan h [] sz largest = largest"
| "worst_scan h (a # as) sz largest =
     (if is_free h a \<and> sz < size_at h a then worst_scan h as (size_at h a) a
      else worst_scan h as sz largest)"

text \<open>
  The order in which next-fit meets the blocks \<open>as\<close>: from the block \<open>next_node\<close>
  (from the first block when \<open>next_node\<close> is null) to the last one, then from the
  first one up to where it started.
\<close>

definition next_fit_start :: "state \<Rightarrow> addr" where
  "next_fit_start s = (if next_node s = 0 then linked_list s else next_node s)"

definition search_order :: "state \<Rightarrow> addr list \<Rightarrow> addr list" where
  "search_order s as =
     (let start = (if next_node s = 0 then linked_list s else next_node s)
      in dropWhile (\<lambda>a. a \<noteq> start) as @ takeWhile (\<lambda>a. a \<noteq> start) as)"

text \<open>What next-fit does once it has found the block \<open>a\<close>.\<close>

definition next_fit_take :: "addr \<Rightarrow> size_t \<Rightarrow> addr comp" where
  "next_fit_take a n =
     bnd (allocate_node a n) (\<lambda>_.
     bnd (get_next a) (\<lambda>pn.
     bnd (set_next_node pn) (\<lambda>_.
     ret (memory_of a))))"

text \<open>
  The blocks of \<open>order\<close> up to the first one that fits, this one included.
\<close>

definition visited :: "(addr \<Rightarrow> node_t option) \<Rightarrow> size_t \<Rightarrow> addr list \<Rightarrow> addr list" where
  "visited h n order =
     takeWhile (\<lambda>a. \<not> fits h n a) order @
     (case find (fits h n) order of None \<Rightarrow> [] | Some a \<Rightarrow> [a])"

text \<open>
  The blocks whose header the loop of next-fit reads, in the order of the reads:
  the loop of \<open>allocate_next_fit\<close> with the list of the values of \<open>p\<close> so far.
\<close>

partial_function (option) next_fit_visits ::
  "size_t \<Rightarrow> addr \<Rightarrow> addr \<Rightarrow> addr list \<Rightarrow> state \<Rightarrow> addr list option" where
  "next_fit_visits nbytes posn p seen s =
     (case rd p s of Inl e \<Rightarrow> Some (seen @ [p])
      | Inr (n, s1) \<Rightarrow>
         if node_free n \<noteq> 0 \<and> nbytes \<le> node_size n then Some (seen @ [p])
         else (let p' = (if node_next n = 0 then linked_list s1 else node_next n)
               in if p' \<noteq> posn then next_fit_visits nbytes posn p' (seen @ [p]) s1
                  else Some (seen @ [p])))"

declare next_fit_visits.simps [code]

section \<open>Auxiliary definitions\<close>

text \<open>
  What both merges do to the headers when the block \<open>v\<close> that follows \<open>u\<close> is
  absorbed into \<open>u\<close>.
\<close>

definition absorb :: "(addr \<Rightarrow> node_t option) \<Rightarrow> addr \<Rightarrow> addr \<Rightarrow> (addr \<Rightarrow> node_t option)" where
  "absorb h u v =
     (case (h u, h v) of
        (Some nu, Some nv) \<Rightarrow>
          (let h1 = h(u \<mapsto> nu\<lparr>node_next := node_next nv,
                               node_size := node_size nu + (header_size + node_size nv)\<rparr>)
           in if node_next nv = 0 then h1
              else (case h (node_next nv) of None \<Rightarrow> h1
                    | Some nc \<Rightarrow> h1(node_next nv \<mapsto> nc\<lparr>node_prev := u\<rparr>)))
      | _ \<Rightarrow> h)"

text \<open>
  The two coalescing steps of \<open>deallocate\<close>, each with its update of \<open>next_node\<close>.
\<close>

definition coalesce_prev :: "addr \<Rightarrow> addr comp" where
  "coalesce_prev p =
     bnd (get_prev p) (\<lambda>q.
     bnd (and_c (q \<noteq> 0) (bnd (get_free q) (\<lambda>qf. ret (qf \<noteq> 0)))) (\<lambda>c.
     if c then
       bnd get_next_node (\<lambda>nn.
       bnd (when_c (nn = p) (bnd (get_next p) set_next_node)) (\<lambda>_.
       merge_prev p))
     else ret p))"

definition coalesce_next :: "addr \<Rightarrow> unit comp" where
  "coalesce_next p =
     bnd (get_next p) (\<lambda>pn.
     bnd (and_c (pn \<noteq> 0) (bnd (get_free pn) (\<lambda>nf. ret (nf \<noteq> 0)))) (\<lambda>c.
     when_c c
       (bnd get_next_node (\<lambda>nn.
        bnd (get_next p) (\<lambda>pn.
        bnd (when_c (nn = pn) (bnd (get_next pn) set_next_node)) (\<lambda>_.
        bnd (merge_next p) (\<lambda>_. ret ())))))))"

section \<open>Example states\<close>

text \<open>
  The process before \<open>initialise\<close>: the static variables are zero and no header
  has been written.
\<close>

definition boot :: state where
  "boot = \<lparr>heap = Map.empty, bytes = (\<lambda>_. 255), linked_list = 0, next_node = 0,
            heap_size = 0, allocate = Unset, stderr = []\<rparr>"

text \<open>A region of 2048 bytes at address 4096, handed to \<open>initialise\<close> for next-fit.\<close>

definition started :: state where
  "started = (case initialise 4096 2048 (Some NEXTFIT) boot of
                Inl _ \<Rightarrow> boot | Inr (_, s) \<Rightarrow> s)"

text \<open>The state after three allocations of 100, 200 and 50 bytes.\<close>

definition after_three :: state where
  "after_three = (case run [Allocate 100, Allocate 200, Allocate 50] started of
                    Some (Inr s) \<Rightarrow> s | _ \<Rightarrow> boot)"

text \<open>
  A state that \<open>deallocate\<close> never leaves behind: two free neighbours, and
  \<open>next_node\<close> at an address that holds no block of the list.
\<close>

definition unmerged :: state where
  "unmerged =
     \<lparr>heap = [1000 \<mapsto> \<lparr>node_next = 1132, node_prev = 0, node_free = 1, node_size = 100\<rparr>,
              1132 \<mapsto> \<lparr>node_next = 0, node_prev = 1000, node_free = 1, node_size = 474\<rparr>],
      bytes = (\<lambda>_. 0), linked_list = 1000, next_node = 5000, heap_size = 638,
      allocate = Next_Fit, stderr = []\<rparr>"

text \<open>
  The layout of the policy laws: \<open>[A free 100][B busy][C free 200][D busy][E free 50]\<close>
  in a region of 638 bytes at address 1000.
\<close>

definition layout :: state where
  "layout =
     \<lparr>heap = [1000 \<mapsto> \<lparr>node_next = 1132, node_prev = 0, node_free = 1, node_size = 100\<rparr>,
              1132 \<mapsto> \<lparr>node_next = 1228, node_prev = 1000, node_free = 0, node_size = 64\<rparr>,
              1228 \<mapsto> \<lparr>node_next = 1460, node_prev = 1132, node_free = 1, node_size = 200\<rparr>,
              1460 \<mapsto> \<lparr>node_next = 1556, node_prev = 1228, node_free = 0, node_size = 64\<rparr>,
              1556 \<mapsto> \<lparr>node_next = 0, node_prev = 1460, node_free = 1, node_size = 50\<rparr>],
      bytes = (\<lambda>_. 255), linked_list = 1000, next_node = 0, heap_size = 638,
      allocate = Next_Fit, stderr = []\<rparr>"

text \<open>The same layout with the cursor of next-fit at the block C.\<close>

definition layout_at_C :: state where
  "layout_at_C = layout\<lparr>next_node := 1228\<rparr>"

section \<open>Proofs\<close>

subsection \<open>The list predicates\<close>

lemmas comp_defs = ret_def fail_def bnd_def assert_c_def when_c_def and_c_def rd_def wr_def
  get_next_def get_prev_def get_free_def get_size_def set_next_def set_prev_def set_free_def
  set_size_def get_next_node_def set_next_node_def memset0_def fprintf_stderr_def

lemmas chain_Cons = chain.simps(2)
lemmas tiles_Cons = tiles.simps(2)

lemma chain_append:
  "chain h pr (xs @ ys) nx =
     (chain h pr xs (case ys of [] \<Rightarrow> nx | b # _ \<Rightarrow> b) \<and>
      chain h (if xs = [] then pr else last xs) ys nx)"
  by (induction xs arbitrary: pr) (auto split: option.splits list.splits)

lemma chain_mono:
  assumes "chain h pr as nx"
    and "\<And>a n. a \<in> set as \<Longrightarrow> h a = Some n \<Longrightarrow>
           \<exists>n'. h' a = Some n' \<and> node_next n' = node_next n \<and> node_prev n' = node_prev n"
  shows "chain h' pr as nx"
  using assms
proof (induction as arbitrary: pr)
  case Nil
  then show ?case by simp
next
  case (Cons a as)
  from Cons.prems(1) obtain n where n: "h a = Some n" "a \<noteq> 0" "node_prev n = pr"
    "node_next n = (case as of [] \<Rightarrow> nx | b # _ \<Rightarrow> b)" "chain h a as nx"
    by (auto split: option.splits)
  from Cons.prems(2)[of a n] n obtain n' where n': "h' a = Some n'"
    "node_next n' = node_next n" "node_prev n' = node_prev n" by auto
  have "chain h' a as nx"
    by (rule Cons.IH[OF n(5)]) (use Cons.prems(2) in auto)
  with n n' show ?case by simp
qed

lemma tiles_append:
  "tiles h (xs @ ys) e =
     (tiles h xs (case ys of [] \<Rightarrow> e | b # _ \<Rightarrow> b) \<and> tiles h ys e)"
  by (induction xs) (auto split: option.splits list.splits)

lemma tiles_mono:
  assumes "tiles h as e"
    and "\<And>a n. a \<in> set as \<Longrightarrow> h a = Some n \<Longrightarrow>
           \<exists>n'. h' a = Some n' \<and> node_size n' = node_size n"
  shows "tiles h' as e"
  using assms
proof (induction as)
  case Nil
  then show ?case by simp
next
  case (Cons a as)
  from Cons.prems(1) obtain n where n: "h a = Some n" "0 < node_size n"
    "a + unat header_size + unat (node_size n) = (case as of [] \<Rightarrow> e | b # _ \<Rightarrow> b)"
    "tiles h as e"
    by (auto split: option.splits)
  from Cons.prems(2)[of a n] n obtain n' where n': "h' a = Some n'"
    "node_size n' = node_size n" by auto
  have "tiles h' as e"
    by (rule Cons.IH[OF n(4)]) (use Cons.prems(2) in auto)
  with n n' show ?case by simp
qed

lemma tiles_bounds: "tiles h as e \<Longrightarrow> a \<in> set as \<Longrightarrow> hd as \<le> a \<and> a < e"
proof (induction as arbitrary: a)
  case Nil
  then show ?case by simp
next
  case (Cons b bs)
  from Cons.prems(1) obtain n where n: "h b = Some n" 
    "b + unat header_size + unat (node_size n) = (case bs of [] \<Rightarrow> e | c # _ \<Rightarrow> c)"
    "tiles h bs e"
    by (auto split: option.splits)
  have hs: "unat header_size = 32" by (simp add: header_size_def)
  show ?case
  proof (cases bs)
    case Nil
    with Cons.prems n hs show ?thesis by auto
  next
    case (Cons c cs)
    have c: "hd bs = c" using Cons by simp
    have "c \<in> set bs" using Cons by simp
    from Cons.IH[OF n(3) this] c have "c < e" by simp
    show ?thesis
    proof (cases "a = b")
      case True
      with n hs Cons \<open>c < e\<close> show ?thesis by simp
    next
      case False
      with Cons.prems have "a \<in> set bs" by simp
      from Cons.IH[OF n(3) this] c n hs Cons show ?thesis by simp
    qed
  qed
qed


lemma chain_nonzero: "chain h pr as nx \<Longrightarrow> 0 \<notin> set as"
  by (induction as arbitrary: pr) (auto split: option.splits)

lemma tiles_sorted: "tiles h as e \<Longrightarrow> sorted_wrt (<) as"
proof (induction as)
  case Nil
  then show ?case by simp
next
  case (Cons b bs)
  from Cons.prems obtain n where n: "h b = Some n"
    "b + unat header_size + unat (node_size n) = (case bs of [] \<Rightarrow> e | c # _ \<Rightarrow> c)"
    "tiles h bs e"
    by (auto split: option.splits)
  have hs: "unat header_size = 32" by (simp add: header_size_def)
  have "b < x" if "x \<in> set bs" for x
  proof -
    from that obtain c cs where bs: "bs = c # cs" by (cases bs) auto
    from tiles_bounds[OF n(3) that] bs have "c \<le> x" by simp
    with n(2) bs hs show ?thesis by simp
  qed
  with Cons.IH[OF n(3)] show ?case by simp
qed

lemma naf_append:
  "no_adjacent_free h (xs @ ys) =
     (no_adjacent_free h xs \<and> no_adjacent_free h ys \<and>
      (xs \<noteq> [] \<and> ys \<noteq> [] \<longrightarrow> \<not> (is_free h (last xs) \<and> is_free h (hd ys))))"
proof (induction h xs rule: no_adjacent_free.induct)
  case (1 h)
  then show ?case by simp
next
  case (2 h a)
  then show ?case by (cases ys) auto
next
  case (3 h a b as)
  then show ?case by auto
qed

lemma naf_cong:
  "(\<And>x. x \<in> set as \<Longrightarrow> is_free h' x = is_free h x) \<Longrightarrow>
   no_adjacent_free h' as = no_adjacent_free h as"
  by (induction as rule: no_adjacent_free.induct) auto

text \<open>The facts around one block of a well-formed list.\<close>

lemma list_at:
  assumes c: "chain h pr (xs @ a # ys) nx" and t: "tiles h (xs @ a # ys) e"
  obtains n where "h a = Some n" "a \<noteq> 0"
    "node_prev n = (if xs = [] then pr else last xs)"
    "node_next n = (case ys of [] \<Rightarrow> nx | b # _ \<Rightarrow> b)"
    "0 < node_size n"
    "a + 32 + unat (node_size n) = (case ys of [] \<Rightarrow> e | b # _ \<Rightarrow> b)"
    "chain h pr xs a" "chain h a ys nx" "tiles h xs a" "tiles h ys e"
    "\<forall>x \<in> set xs. x < a \<and> x \<noteq> 0"
    "\<forall>y \<in> set ys. a + 32 + unat (node_size n) \<le> y \<and> y < e \<and> y \<noteq> 0"
proof -
  have hs: "unat header_size = 32" by (simp add: header_size_def)
  from c have c1: "chain h pr xs a" and c2: "chain h (if xs = [] then pr else last xs) (a # ys) nx"
    by (simp_all add: chain_append)
  from t have t1: "tiles h xs a" and t2: "tiles h (a # ys) e"
    by (simp_all add: tiles_append)
  from c2 t2 obtain n where n: "h a = Some n" "a \<noteq> 0"
    "node_prev n = (if xs = [] then pr else last xs)"
    "node_next n = (case ys of [] \<Rightarrow> nx | b # _ \<Rightarrow> b)"
    "0 < node_size n"
    "a + 32 + unat (node_size n) = (case ys of [] \<Rightarrow> e | b # _ \<Rightarrow> b)"
    "chain h a ys nx" "tiles h ys e"
    by (auto split: option.splits simp: hs)
  have x: "x < a \<and> x \<noteq> 0" if "x \<in> set xs" for x
    using tiles_bounds[OF t1 that] chain_nonzero[OF c1] that by (cases "x = 0") auto
  have y: "a + 32 + unat (node_size n) \<le> y \<and> y < e \<and> y \<noteq> 0" if "y \<in> set ys" for y
  proof -
    from that obtain b bs where ys: "ys = b # bs" by (cases ys) auto
    from tiles_bounds[OF n(8) that] ys n(6) chain_nonzero[OF n(7)] that
    show ?thesis by (cases "y = 0") auto
  qed
  from x have x': "\<forall>x \<in> set xs. x < a \<and> x \<noteq> 0" by blast
  from y have y': "\<forall>y \<in> set ys. a + 32 + unat (node_size n) \<le> y \<and> y < e \<and> y \<noteq> 0" by blast
  show ?thesis
    by (rule that[OF n(1-6) c1 n(7) t1 n(8) x' y'])
qed


declare chain.simps(2) [simp del]
declare tiles.simps(2) [simp del]

subsection \<open>The two cases of allocate\_node\<close>

lemma allocate_node_whole:
  assumes "p \<noteq> 0" "0 < n" "heap s p = Some pn"
    and "\<not> header_size + MINIMUM_FREE_BLOCK \<le> node_size pn - n"
  shows "allocate_node p n s =
     Inr (p, s\<lparr>heap := (heap s)(p \<mapsto> pn\<lparr>node_free := 0\<rparr>),
               bytes := (\<lambda>x. if memory_of p \<le> x \<and> x < memory_of p + unat (node_size pn)
                              then 0 else bytes s x)\<rparr>)"
  using assms by (simp add: allocate_node_def comp_defs cong: if_cong)

lemma allocate_node_split:
  assumes "p \<noteq> 0" "0 < n" "heap s p = Some pn"
    and "header_size + MINIMUM_FREE_BLOCK \<le> node_size pn - n"
    and "q = memory_of p + unat n" "node_next pn \<noteq> q" "node_next pn \<noteq> p"
    and "node_next pn \<noteq> 0 \<Longrightarrow> heap s (node_next pn) = Some nb"
  shows "allocate_node p n s =
     Inr (p, s\<lparr>heap := 
                (if node_next pn = 0 then 
                  (heap s)(q \<mapsto> \<lparr>node_next = node_next pn, node_prev = p, node_free = 1,
                               node_size = node_size pn - n - header_size\<rparr>,
                           p \<mapsto> pn\<lparr>node_next := q, node_size := n, node_free := 0\<rparr>)
                 else (heap s)(q \<mapsto> \<lparr>node_next = node_next pn, node_prev = p, node_free = 1,
                               node_size = node_size pn - n - header_size\<rparr>,
                           node_next pn \<mapsto> nb\<lparr>node_prev := q\<rparr>,
                           p \<mapsto> pn\<lparr>node_next := q, node_size := n, node_free := 0\<rparr>)),
               bytes := (\<lambda>x. if memory_of p \<le> x \<and> x < memory_of p + unat n
                              then 0 else bytes s x)\<rparr>)"
proof -
  have qp: "q \<noteq> p" "q \<noteq> 0" using assms(5) by (simp_all add: memory_of_def header_size_def)
  have hs: "header_size < node_size pn - n"
    using assms(4) by (simp add: header_size_def MINIMUM_FREE_BLOCK_def) unat_arith
  show ?thesis
    using assms qp hs
    by (simp add: allocate_node_def create_node_def comp_defs cong: if_cong)
qed

subsection \<open>allocate\_node keeps the structure of the list\<close>

lemma chain_upd_notin: "a \<notin> set as \<Longrightarrow> chain (h(a := v)) pr as nx = chain h pr as nx"
  by (induction as arbitrary: pr) (auto simp: chain_Cons split: option.splits)

lemma tiles_upd_notin: "a \<notin> set as \<Longrightarrow> tiles (h(a := v)) as e = tiles h as e"
  by (induction as) (auto simp: tiles_Cons split: option.splits)

lemma is_free_upd: "is_free (h(a := v)) x = (if x = a then (case v of None \<Rightarrow> False | Some n \<Rightarrow> node_free n \<noteq> 0) else is_free h x)"
  by (simp add: is_free_def)

lemma size_at_upd: "size_at (h(a := v)) x = (if x = a then (case v of None \<Rightarrow> 0 | Some n \<Rightarrow> node_size n) else size_at h x)"
  by (simp add: size_at_def)

lemma allocate_node_wf:
  assumes wf: "well_formed s (xs @ a # ys)" and n: "0 < n" "n \<le> size_at (heap s) a"
  defines "q \<equiv> memory_of a + unat n"
  shows "\<exists>s'. allocate_node a n s = Inr (a, s') \<and>
    linked_list s' = linked_list s \<and> heap_size s' = heap_size s \<and>
    next_node s' = next_node s \<and> allocate s' = allocate s \<and> stderr s' = stderr s \<and>
    \<not> is_free (heap s') a \<and>
    (\<forall>x \<in> set xs \<union> set ys. is_free (heap s') x = is_free (heap s) x \<and>
                             size_at (heap s') x = size_at (heap s) x) \<and>
    (\<forall>i < unat (size_at (heap s') a). bytes s' (memory_of a + i) = 0) \<and>
    (if header_size + MINIMUM_FREE_BLOCK \<le> size_at (heap s) a - n
     then well_formed s' (xs @ a # q # ys) \<and> size_at (heap s') a = n \<and>
          is_free (heap s') q \<and>
          size_at (heap s') q = size_at (heap s) a - n - header_size
     else well_formed s' (xs @ a # ys) \<and> size_at (heap s') a = size_at (heap s) a)"
proof -
  let ?h = "heap s" and ?e = "linked_list s + unat (heap_size s)"
  from wf have c: "chain ?h 0 (xs @ a # ys) 0" and t: "tiles ?h (xs @ a # ys) ?e"
    and hd: "hd (xs @ a # ys) = linked_list s"
    and cur: "next_node s = 0 \<or> next_node s \<in> set (xs @ a # ys)"
    by (simp_all add: well_formed_def)
  from c t obtain pn where pn: "?h a = Some pn" "a \<noteq> 0"
    "node_prev pn = (if xs = [] then 0 else last xs)"
    "node_next pn = (case ys of [] \<Rightarrow> 0 | b # _ \<Rightarrow> b)"
    "0 < node_size pn"
    "a + 32 + unat (node_size pn) = (case ys of [] \<Rightarrow> ?e | b # _ \<Rightarrow> b)"
    "chain ?h 0 xs a" "chain ?h a ys 0" "tiles ?h xs a" "tiles ?h ys ?e"
    and xs: "\<forall>x \<in> set xs. x < a \<and> x \<noteq> 0"
    and ys: "\<forall>y \<in> set ys. a + 32 + unat (node_size pn) \<le> y \<and> y < ?e \<and> y \<noteq> 0"
    by (rule list_at)
  have sz: "size_at ?h a = node_size pn" using pn(1) by (simp add: size_at_def)
  have nle: "n \<le> node_size pn" using n sz by simp
  have ax: "a \<notin> set xs" using xs by auto
  have ay: "a \<notin> set ys" using ys by fastforce
  show ?thesis
  proof (cases "header_size + MINIMUM_FREE_BLOCK \<le> node_size pn - n")
    case False
    let ?s' = "s\<lparr>heap := (heap s)(a \<mapsto> pn\<lparr>node_free := 0\<rparr>),
               bytes := (\<lambda>x. if memory_of a \<le> x \<and> x < memory_of a + unat (node_size pn)
                              then 0 else bytes s x)\<rparr>"
    have r: "allocate_node a n s = Inr (a, ?s')"
      by (rule allocate_node_whole[OF pn(2) n(1) pn(1) False])
    have c': "chain (heap ?s') 0 (xs @ a # ys) 0"
      by (rule chain_mono[OF c]) (use pn(1) in auto)
    have t': "tiles (heap ?s') (xs @ a # ys) ?e"
      by (rule tiles_mono[OF t]) (use pn(1) in auto)
    have wf': "well_formed ?s' (xs @ a # ys)"
      using c' t' hd cur by (simp add: well_formed_def)
    have nf: "\<not> is_free (heap ?s') a" by (simp add: is_free_upd)
    have sa: "size_at (heap ?s') a = node_size pn" by (simp add: size_at_upd)
    have ot: "\<forall>x \<in> set xs \<union> set ys. is_free (heap ?s') x = is_free (heap s) x \<and>
                             size_at (heap ?s') x = size_at (heap s) x"
      using ax ay by (auto simp: is_free_upd size_at_upd)
    have zr: "\<forall>i < unat (size_at (heap ?s') a). bytes ?s' (memory_of a + i) = 0"
      unfolding sa by simp
    show ?thesis
      using r wf' False sz nf sa ot zr
      by (intro exI[of _ ?s']) simp
  next
    case True
    have u64: "unat (header_size + MINIMUM_FREE_BLOCK) = 64"
      by (simp add: header_size_def MINIMUM_FREE_BLOCK_def)
    have urem: "unat (node_size pn - n) = unat (node_size pn) - unat n"
      using nle by (simp add: unat_sub)
    have ge: "64 \<le> unat (node_size pn) - unat n"
      using True urem u64 by (simp add: word_le_nat_alt)
    have un: "0 < unat n" using n(1) by (simp add: word_less_nat_alt)
    have unle: "unat n \<le> unat (node_size pn)" using nle by (simp add: word_le_nat_alt)
    have h32: "header_size \<le> node_size pn - n"
      using ge urem by (simp add: word_le_nat_alt header_size_def)
    have unew: "unat (node_size pn - n - header_size) = unat (node_size pn) - unat n - 32"
      using h32 urem by (simp add: unat_sub header_size_def)
    have newpos: "0 < node_size pn - n - header_size"
      using unew ge by (simp add: word_less_nat_alt)
    have qdef: "q = memory_of a + unat n" by (simp add: q_def)
    have q: "q = a + 32 + unat n" by (simp add: q_def memory_of_def header_size_def)
    have qa: "a < q" using q by simp
    have qx: "q \<notin> set xs" using xs qa by fastforce
    have qy: "q \<notin> set ys" using ys q ge unle by fastforce
    have qn: "node_next pn \<noteq> q" using pn(4) qy q by (cases ys) auto
    have an: "node_next pn \<noteq> a" using pn(4) ay pn(2) by (cases ys) auto
    let ?nq = "\<lparr>node_next = node_next pn, node_prev = a, node_free = 1,
                 node_size = node_size pn - n - header_size\<rparr>"
    let ?pn' = "pn\<lparr>node_next := q, node_size := n, node_free := 0\<rparr>"
    let ?by = "(\<lambda>x. if memory_of a \<le> x \<and> x < memory_of a + unat n then 0 else bytes s x)"
    have hs: "unat header_size = 32" by (simp add: header_size_def)
    show ?thesis
    proof (cases ys)
      case Nil
      let ?s' = "s\<lparr>heap := (heap s)(q \<mapsto> ?nq, a \<mapsto> ?pn'), bytes := ?by\<rparr>"
      have nx0: "node_next pn = 0" using pn(4) Nil by simp
      have r: "allocate_node a n s = Inr (a, ?s')"
        using allocate_node_split[OF pn(2) n(1) pn(1) True qdef qn an, of undefined] nx0
        by simp
      have c1: "chain (heap ?s') 0 xs a"
        using pn(7) ax qx by (simp add: chain_upd_notin)
      have c2: "chain (heap ?s') (if xs = [] then 0 else last xs) [a, q] 0"
        using pn(2,3) qa nx0 by (simp add: chain_Cons)
      have c': "chain (heap ?s') 0 (xs @ a # q # ys) 0"
        unfolding Nil chain_append[of _ _ xs "[a, q]"] using c1 c2 by simp
      have t1: "tiles (heap ?s') xs a"
        using pn(9) ax qx by (simp add: tiles_upd_notin)
      have t2: "tiles (heap ?s') [a, q] ?e"
        using qa n(1) newpos q hs unew pn(6) Nil ge unle by (simp add: tiles_Cons)
      have t': "tiles (heap ?s') (xs @ a # q # ys) ?e"
        unfolding Nil tiles_append[of _ xs "[a, q]"] using t1 t2 by simp
      have hd': "hd (xs @ a # q # ys) = linked_list s" using hd by (cases xs) simp_all
      have cur': "next_node s = 0 \<or> next_node s \<in> set (xs @ a # q # ys)" using cur by auto
      have wf': "well_formed ?s' (xs @ a # q # ys)"
        using c' t' hd' cur' by (simp add: well_formed_def)
      have nf: "\<not> is_free (heap ?s') a" by (simp add: is_free_upd)
      have sa: "size_at (heap ?s') a = n" by (simp add: size_at_upd)
      have fq: "is_free (heap ?s') q" using qa by (simp add: is_free_upd)
      have sq: "size_at (heap ?s') q = node_size pn - n - header_size"
        using qa by (simp add: size_at_upd)
      have ot: "\<forall>x \<in> set xs \<union> set ys. is_free (heap ?s') x = is_free (heap s) x \<and>
                             size_at (heap ?s') x = size_at (heap s) x"
        using ax ay qx qy by (auto simp: is_free_upd size_at_upd)
      have zr: "\<forall>i < unat (size_at (heap ?s') a). bytes ?s' (memory_of a + i) = 0"
        unfolding sa by simp
      show ?thesis
        using r wf' True sz nf sa fq sq ot zr
        by (intro exI[of _ ?s']) simp
    next
      case (Cons b bs)
      from pn(8) Cons obtain nb where nb: "?h b = Some nb" "b \<noteq> 0" "node_prev nb = a"
        "node_next nb = (case bs of [] \<Rightarrow> 0 | c # _ \<Rightarrow> c)" "chain ?h b bs 0"
        by (auto simp: chain_Cons split: option.splits)
      have nxb: "node_next pn = b" using pn(4) Cons by simp
      have bbs: "b \<notin> set bs" using tiles_sorted[OF pn(10)] Cons by auto
      have bx: "b \<notin> set xs" using xs ys Cons by fastforce
      have ba: "b \<noteq> a" using ay Cons by auto
      have bq: "b \<noteq> q" using qy Cons by auto
      have abs: "a \<notin> set bs" "q \<notin> set bs" using ay qy Cons by auto
      let ?s' = "s\<lparr>heap := (heap s)(q \<mapsto> ?nq, b \<mapsto> nb\<lparr>node_prev := q\<rparr>, a \<mapsto> ?pn'),
                   bytes := ?by\<rparr>"
      have r: "allocate_node a n s = Inr (a, ?s')"
        using allocate_node_split[OF pn(2) n(1) pn(1) True qdef qn an, of nb] nxb nb(1,2)
        by simp
      have c1: "chain (heap ?s') 0 xs a"
        using pn(7) ax qx bx by (simp add: chain_upd_notin)
      have c3: "chain (heap ?s') b bs 0"
        using nb(5) abs bbs by (simp add: chain_upd_notin)
      have c2: "chain (heap ?s') (if xs = [] then 0 else last xs) (a # q # b # bs) 0"
        using pn(2,3) qa nxb ba bq nb c3 by (simp add: chain_Cons)
      have c': "chain (heap ?s') 0 (xs @ a # q # ys) 0"
        unfolding Cons chain_append[of _ _ xs "a # q # b # bs"] using c1 c2 by simp
      have t1: "tiles (heap ?s') xs a"
        using pn(9) ax qx bx by (simp add: tiles_upd_notin)
      have t3: "tiles (heap ?s') (b # bs) ?e"
        by (rule tiles_mono[OF pn(10)[unfolded Cons]]) (use ba bq abs nb(1) in auto)
      have t2: "tiles (heap ?s') (a # q # b # bs) ?e"
        using qa n(1) newpos q hs unew pn(6) Cons ge unle t3 ba bq by (simp add: tiles_Cons)
      have t': "tiles (heap ?s') (xs @ a # q # ys) ?e"
        unfolding Cons tiles_append[of _ xs "a # q # b # bs"] using t1 t2 by simp
      have hd': "hd (xs @ a # q # ys) = linked_list s" using hd by (cases xs) simp_all
      have cur': "next_node s = 0 \<or> next_node s \<in> set (xs @ a # q # ys)" using cur by auto
      have wf': "well_formed ?s' (xs @ a # q # ys)"
        using c' t' hd' cur' by (simp add: well_formed_def)
      have nf: "\<not> is_free (heap ?s') a" by (simp add: is_free_upd)
      have sa: "size_at (heap ?s') a = n" by (simp add: size_at_upd)
      have fq: "is_free (heap ?s') q" using qa bq by (simp add: is_free_upd)
      have sq: "size_at (heap ?s') q = node_size pn - n - header_size"
        using qa bq by (simp add: size_at_upd)
      have ot: "\<forall>x \<in> set xs \<union> set ys. is_free (heap ?s') x = is_free (heap s) x \<and>
                             size_at (heap ?s') x = size_at (heap s) x"
        using ax ay qx qy nb(1) by (auto simp: is_free_upd size_at_upd is_free_def size_at_def)
      have zr: "\<forall>i < unat (size_at (heap ?s') a). bytes ?s' (memory_of a + i) = 0"
        unfolding sa by simp
      show ?thesis
        using r wf' True sz nf sa fq sq ot zr
        by (intro exI[of _ ?s']) simp
    qed
  qed
qed

subsection \<open>The two merges\<close>

lemma node_upd_size_next:
  "n\<lparr>node_size := z, node_next := c\<rparr> = n\<lparr>node_next := c, node_size := z\<rparr>"
  by (cases n) simp

lemma merge_next_absorb:
  assumes "p \<noteq> 0" "heap s p = Some pn" "node_next pn = b" "b \<noteq> 0" "b \<noteq> p"
    and "heap s b = Some nb" "node_next nb \<noteq> p"
    and "node_next nb \<noteq> 0 \<Longrightarrow> heap s (node_next nb) = Some nc"
  shows "merge_next p s = Inr (p, s\<lparr>heap := absorb (heap s) p b\<rparr>)"
  using assms
  by (auto simp: merge_next_def comp_defs absorb_def fun_upd_twist node_upd_size_next)

lemma merge_prev_absorb:
  assumes "p \<noteq> 0" "heap s p = Some pn" "node_prev pn = q" "q \<noteq> 0" "q \<noteq> p"
    and "heap s q = Some nq" "node_next pn \<noteq> p" "node_next pn \<noteq> q"
    and "node_next pn \<noteq> 0 \<Longrightarrow> heap s (node_next pn) = Some nc"
  shows "merge_prev p s = Inr (q, s\<lparr>heap := absorb (heap s) q p\<rparr>)"
  using assms
  by (auto simp: merge_prev_def comp_defs absorb_def fun_upd_twist)


lemma absorb_list:
  assumes c: "chain h 0 (xs @ u # v # ys) 0" and t: "tiles h (xs @ u # v # ys) e"
    and bound: "e \<le> hd (xs @ u # v # ys) + unat (N :: size_t)"
  shows "chain (absorb h u v) 0 (xs @ u # ys) 0 \<and>
         tiles (absorb h u v) (xs @ u # ys) e \<and>
         size_at (absorb h u v) u = size_at h u + (header_size + size_at h v) \<and>
         is_free (absorb h u v) u = is_free h u \<and>
         (\<forall>x \<in> set xs \<union> set ys. is_free (absorb h u v) x = is_free h x \<and>
                                size_at (absorb h u v) x = size_at h x)"
proof -
  have hs: "unat header_size = 32" by (simp add: header_size_def)
  from c t obtain nu where nu: "h u = Some nu" "u \<noteq> 0"
    "node_prev nu = (if xs = [] then 0 else last xs)"
    "node_next nu = (case v # ys of [] \<Rightarrow> 0 | b # _ \<Rightarrow> b)"
    "0 < node_size nu"
    "u + 32 + unat (node_size nu) = (case v # ys of [] \<Rightarrow> e | b # _ \<Rightarrow> b)"
    "chain h 0 xs u" "chain h u (v # ys) 0" "tiles h xs u" "tiles h (v # ys) e"
    and xs: "\<forall>x \<in> set xs. x < u \<and> x \<noteq> 0"
    and vys: "\<forall>y \<in> set (v # ys). u + 32 + unat (node_size nu) \<le> y \<and> y < e \<and> y \<noteq> 0"
    by (rule list_at)
  from c t have c2: "chain h 0 ((xs @ [u]) @ v # ys) 0" and t2: "tiles h ((xs @ [u]) @ v # ys) e"
    by simp_all
  from c2 t2 obtain nv where nv: "h v = Some nv" "v \<noteq> 0"
    "node_prev nv = (if xs @ [u] = [] then 0 else last (xs @ [u]))"
    "node_next nv = (case ys of [] \<Rightarrow> 0 | b # _ \<Rightarrow> b)"
    "0 < node_size nv"
    "v + 32 + unat (node_size nv) = (case ys of [] \<Rightarrow> e | b # _ \<Rightarrow> b)"
    "chain h 0 (xs @ [u]) v" "chain h v ys 0" "tiles h (xs @ [u]) v" "tiles h ys e"
    and ys: "\<forall>y \<in> set ys. v + 32 + unat (node_size nv) \<le> y \<and> y < e \<and> y \<noteq> 0"
    by (rule list_at)
  have uv: "v = u + 32 + unat (node_size nu)" using nu(6) by simp
  have ux: "u \<notin> set xs" using xs by auto
  have uy: "u \<notin> set ys" using ys uv by fastforce
  have vx: "v \<notin> set xs" using xs uv by fastforce
  have vy: "v \<notin> set ys" using ys by fastforce
  have hdle: "hd (xs @ u # v # ys) \<le> u"
    using tiles_bounds[OF t, of u] by simp
  have ve: "v + 32 + unat (node_size nv) \<le> e"
    using nv(6) ys by (cases ys) auto
  have "unat (node_size nu) + (32 + unat (node_size nv)) \<le> unat N"
    using ve uv hdle bound by simp
  then have lt: "unat (node_size nu) + (32 + unat (node_size nv)) < 2 ^ 64"
    using unsigned_less[of N, where 'a = nat] by simp
  have u1: "unat (header_size + node_size nv) = 32 + unat (node_size nv)"
    using lt hs by (simp add: unat_add_lem[THEN iffD1])
  have usum: "unat (node_size nu + (header_size + node_size nv)) =
              unat (node_size nu) + 32 + unat (node_size nv)"
    using lt u1 by (simp add: unat_add_lem[THEN iffD1])
  have pos: "0 < node_size nu + (header_size + node_size nv)"
    using usum by (simp add: word_less_nat_alt)
  let ?nu' = "nu\<lparr>node_next := node_next nv,
                   node_size := node_size nu + (header_size + node_size nv)\<rparr>"
  show ?thesis
  proof (cases ys)
    case Nil
    have ab: "absorb h u v = h(u \<mapsto> ?nu')"
      using nu(1) nv(1,4) Nil by (simp add: absorb_def)
    have c1: "chain (absorb h u v) 0 xs u"
      unfolding ab using nu(7) ux by (simp add: chain_upd_notin)
    have c3: "chain (absorb h u v) (if xs = [] then 0 else last xs) [u] 0"
      unfolding ab using nu(2,3) nv(4) Nil by (simp add: chain_Cons)
    have c': "chain (absorb h u v) 0 (xs @ u # ys) 0"
      unfolding Nil chain_append[of _ _ xs "[u]"] using c1 c3 by simp
    have t1: "tiles (absorb h u v) xs u"
      unfolding ab using nu(9) ux by (simp add: tiles_upd_notin)
    have t3: "tiles (absorb h u v) [u] e"
      unfolding ab using pos usum uv nv(6) Nil by (simp add: tiles_Cons hs)
    have t': "tiles (absorb h u v) (xs @ u # ys) e"
      unfolding Nil tiles_append[of _ xs "[u]"] using t1 t3 by simp
    show ?thesis
      using c' t' nu(1) nv(1) ux unfolding ab
      by (auto simp: is_free_upd size_at_upd Nil is_free_def size_at_def)
  next
    case (Cons b bs)
    from nv(8) Cons obtain nb where nb: "h b = Some nb" "b \<noteq> 0" "node_prev nb = v"
      "node_next nb = (case bs of [] \<Rightarrow> 0 | c # _ \<Rightarrow> c)" "chain h b bs 0"
      by (auto simp: chain_Cons split: option.splits)
    have nvb: "node_next nv = b" using nv(4) Cons by simp
    have bbs: "b \<notin> set bs" using tiles_sorted[OF nv(10)] Cons by auto
    have bx: "b \<notin> set xs" using xs ys uv Cons by fastforce
    have bu: "b \<noteq> u" using uy Cons by auto
    have ubs: "u \<notin> set bs" using uy Cons by auto
    have ab: "absorb h u v = h(u \<mapsto> ?nu', b \<mapsto> nb\<lparr>node_prev := u\<rparr>)"
      using nu(1) nv(1) nvb nb(1,2) by (simp add: absorb_def)
    have c1: "chain (absorb h u v) 0 xs u"
      unfolding ab using nu(7) ux bx by (simp add: chain_upd_notin)
    have c4: "chain (absorb h u v) b bs 0"
      unfolding ab using nb(5) ubs bbs by (simp add: chain_upd_notin)
    have c3: "chain (absorb h u v) (if xs = [] then 0 else last xs) (u # b # bs) 0"
      using c4 unfolding ab using nu(2,3) nvb bu nb by (simp add: chain_Cons)
    have c': "chain (absorb h u v) 0 (xs @ u # ys) 0"
      unfolding Cons chain_append[of _ _ xs "u # b # bs"] using c1 c3 by simp
    have t1: "tiles (absorb h u v) xs u"
      unfolding ab using nu(9) ux bx by (simp add: tiles_upd_notin)
    have t4: "tiles (absorb h u v) (b # bs) e"
      unfolding ab by (rule tiles_mono[OF nv(10)[unfolded Cons]]) (use bu ubs nb(1) in auto)
    have t3: "tiles (absorb h u v) (u # b # bs) e"
      using t4 unfolding ab using pos usum uv nv(6) Cons bu by (simp add: tiles_Cons hs)
    have t': "tiles (absorb h u v) (xs @ u # ys) e"
      unfolding Cons tiles_append[of _ xs "u # b # bs"] using t1 t3 by simp
    show ?thesis
      using c' t' nu(1) nv(1) nb(1) ux uy bx bu unfolding ab
      by (auto simp: is_free_upd size_at_upd is_free_def size_at_def)
  qed
qed

subsection \<open>The stages of deallocate\<close>

lemma deallocate_stages:
  "deallocate memory =
     bnd (\<lambda>s. assert_c (linked_list s \<noteq> 0) s) (\<lambda>_.
     if memory = 0 then ret ()
     else
     bnd (\<lambda>s. assert_c (linked_list s \<le> memory \<and>
                         memory < linked_list s + unat (heap_size s)) s) (\<lambda>_.
     bnd (get_free (memory - unat header_size)) (\<lambda>f.
     if f \<noteq> 0 then fprintf_stderr (''Error : memory already free'' @ [CHR 0x0A])
     else
     bnd (set_free (memory - unat header_size) 1) (\<lambda>_.
     bnd (coalesce_prev (memory - unat header_size)) coalesce_next))))"
  unfolding deallocate_def coalesce_prev_def coalesce_next_def
  by (rule ext) (simp add: bnd_def ret_def split: sum.splits)


lemma coalesce_next_wf:
  assumes wf: "well_formed s (xs @ p # ys)"
  shows "\<exists>s'. coalesce_next p s = Inr ((), s') \<and>
     linked_list s' = linked_list s \<and> heap_size s' = heap_size s \<and> bytes s' = bytes s \<and>
     allocate s' = allocate s \<and> stderr s' = stderr s \<and>
     (if ys \<noteq> [] \<and> is_free (heap s) (hd ys)
      then well_formed s' (xs @ p # tl ys) \<and>
           next_node s' = (if next_node s = hd ys
                           then (case tl ys of [] \<Rightarrow> 0 | c # _ \<Rightarrow> c) else next_node s) \<and>
           size_at (heap s') p = size_at (heap s) p + (header_size + size_at (heap s) (hd ys)) \<and>
           is_free (heap s') p = is_free (heap s) p \<and>
           (\<forall>x \<in> set xs \<union> set (tl ys). is_free (heap s') x = is_free (heap s) x \<and>
                                       size_at (heap s') x = size_at (heap s) x)
      else s' = s)"
proof -
  let ?h = "heap s" and ?e = "linked_list s + unat (heap_size s)"
  from wf have c: "chain ?h 0 (xs @ p # ys) 0" and t: "tiles ?h (xs @ p # ys) ?e"
    and hd: "hd (xs @ p # ys) = linked_list s"
    and cur: "next_node s = 0 \<or> next_node s \<in> set (xs @ p # ys)"
    by (simp_all add: well_formed_def)
  from c t obtain pn where pn: "?h p = Some pn" "p \<noteq> 0"
    "node_prev pn = (if xs = [] then 0 else last xs)"
    "node_next pn = (case ys of [] \<Rightarrow> 0 | b # _ \<Rightarrow> b)"
    "0 < node_size pn"
    "p + 32 + unat (node_size pn) = (case ys of [] \<Rightarrow> ?e | b # _ \<Rightarrow> b)"
    "chain ?h 0 xs p" "chain ?h p ys 0" "tiles ?h xs p" "tiles ?h ys ?e"
    and xs: "\<forall>x \<in> set xs. x < p \<and> x \<noteq> 0"
    and ys: "\<forall>y \<in> set ys. p + 32 + unat (node_size pn) \<le> y \<and> y < ?e \<and> y \<noteq> 0"
    by (rule list_at)
  show ?thesis
  proof (cases ys)
    case Nil
    then show ?thesis using pn(1,2,4) by (simp add: coalesce_next_def comp_defs)
  next
    case (Cons b bs)
    from pn(8) Cons obtain nb where nb: "?h b = Some nb" "b \<noteq> 0" "node_prev nb = p"
      "node_next nb = (case bs of [] \<Rightarrow> 0 | c # _ \<Rightarrow> c)" "chain ?h b bs 0"
      by (auto simp: chain_Cons split: option.splits)
    have nx: "node_next pn = b" using pn(4) Cons by simp
    have bp: "b \<noteq> p" using ys Cons by fastforce
    show ?thesis
    proof (cases "is_free ?h b")
      case False
      then show ?thesis using pn(1,2) nx nb(1,2) Cons
        by (simp add: coalesce_next_def comp_defs is_free_def)
    next
      case True
      have pbs: "p \<notin> set bs" using ys Cons by fastforce
      have nbp: "node_next nb \<noteq> p" using nb(4) pbs pn(2) by (cases bs) auto
      have nbc: "node_next nb \<noteq> 0 \<Longrightarrow> \<exists>nc. ?h (node_next nb) = Some nc"
        using nb(4,5) by (cases bs) (auto simp: chain_Cons split: option.splits)
      let ?cur = "if next_node s = b then node_next nb else next_node s"
      let ?s' = "s\<lparr>next_node := ?cur, heap := absorb ?h p b\<rparr>"
      have mn: "merge_next p (s\<lparr>next_node := v\<rparr>) =
                  Inr (p, s\<lparr>next_node := v, heap := absorb ?h p b\<rparr>)" for v
      proof (cases "node_next nb = 0")
        case True
        show ?thesis
          using merge_next_absorb[of p "s\<lparr>next_node := v\<rparr>" pn b nb undefined]
            pn(1,2) nx nb(1,2) bp nbp True by simp
      next
        case False
        from nbc[OF False] obtain nc where "?h (node_next nb) = Some nc" ..
        then show ?thesis
          using merge_next_absorb[of p "s\<lparr>next_node := v\<rparr>" pn b nb nc]
            pn(1,2) nx nb(1,2) bp nbp by simp
      qed
      have mn0: "merge_next p s = Inr (p, s\<lparr>heap := absorb ?h p b\<rparr>)"
        using mn[of "next_node s"] by simp
      have r: "coalesce_next p s = Inr ((), ?s')"
        using pn(1,2) nx nb(1,2) True mn mn0
        by (simp add: coalesce_next_def comp_defs is_free_def)
      have bound: "?e \<le> hd (xs @ p # b # bs) + unat (heap_size s)"
        using hd Cons by simp
      note al = absorb_list[OF c[unfolded Cons] t[unfolded Cons] bound]
      have hd': "hd (xs @ p # bs) = linked_list s" using hd by (cases xs) simp_all
      have cur': "?cur = 0 \<or> ?cur \<in> set (xs @ p # bs)"
        using cur nb(4) Cons by (cases bs) auto
      have wf': "well_formed ?s' (xs @ p # tl ys)"
        using al hd' cur' Cons by (simp add: well_formed_def)
      show ?thesis
        using r wf' al Cons True nb(4)
        by (intro exI[of _ ?s']) (simp add: size_at_def[of ?h b])
    qed
  qed
qed


lemma coalesce_prev_wf:
  assumes wf: "well_formed s (xs @ p # ys)"
  shows "\<exists>s'. coalesce_prev p s =
            Inr (if xs \<noteq> [] \<and> is_free (heap s) (last xs) then last xs else p, s') \<and>
     linked_list s' = linked_list s \<and> heap_size s' = heap_size s \<and> bytes s' = bytes s \<and>
     allocate s' = allocate s \<and> stderr s' = stderr s \<and>
     (if xs \<noteq> [] \<and> is_free (heap s) (last xs)
      then well_formed s' (butlast xs @ last xs # ys) \<and>
           next_node s' = (if next_node s = p
                           then (case ys of [] \<Rightarrow> 0 | c # _ \<Rightarrow> c) else next_node s) \<and>
           size_at (heap s') (last xs) =
             size_at (heap s) (last xs) + (header_size + size_at (heap s) p) \<and>
           is_free (heap s') (last xs) \<and>
           (\<forall>x \<in> set (butlast xs) \<union> set ys. is_free (heap s') x = is_free (heap s) x \<and>
                                       size_at (heap s') x = size_at (heap s) x)
      else s' = s)"
proof -
  let ?h = "heap s" and ?e = "linked_list s + unat (heap_size s)"
  from wf have c: "chain ?h 0 (xs @ p # ys) 0" and t: "tiles ?h (xs @ p # ys) ?e"
    and hd: "hd (xs @ p # ys) = linked_list s"
    and cur: "next_node s = 0 \<or> next_node s \<in> set (xs @ p # ys)"
    by (simp_all add: well_formed_def)
  from c t obtain pn where pn: "?h p = Some pn" "p \<noteq> 0"
    "node_prev pn = (if xs = [] then 0 else last xs)"
    "node_next pn = (case ys of [] \<Rightarrow> 0 | b # _ \<Rightarrow> b)"
    "0 < node_size pn"
    "p + 32 + unat (node_size pn) = (case ys of [] \<Rightarrow> ?e | b # _ \<Rightarrow> b)"
    "chain ?h 0 xs p" "chain ?h p ys 0" "tiles ?h xs p" "tiles ?h ys ?e"
    and xs: "\<forall>x \<in> set xs. x < p \<and> x \<noteq> 0"
    and ys: "\<forall>y \<in> set ys. p + 32 + unat (node_size pn) \<le> y \<and> y < ?e \<and> y \<noteq> 0"
    by (rule list_at)
  show ?thesis
  proof (cases xs rule: rev_cases)
    case Nil
    then show ?thesis using pn(1,2,3) by (simp add: coalesce_prev_def comp_defs)
  next
    case (snoc zs q)
    have c2: "chain ?h 0 (zs @ q # p # ys) 0" and t2: "tiles ?h (zs @ q # p # ys) ?e"
      using c t snoc by simp_all
    from c2 t2 obtain nq where nq: "?h q = Some nq" "q \<noteq> 0"
      by (rule list_at)
    have pv: "node_prev pn = q" using pn(3) snoc by simp
    have qp: "q \<noteq> p" using xs snoc by fastforce
    show ?thesis
    proof (cases "is_free ?h q")
      case False
      then show ?thesis using pn(1,2) pv nq snoc
        by (simp add: coalesce_prev_def comp_defs is_free_def)
    next
      case True
      have pys: "p \<notin> set ys" using ys by fastforce
      have qys: "q \<notin> set ys" using ys xs snoc by fastforce
      have np: "node_next pn \<noteq> p" using pn(4) pys pn(2) by (cases ys) auto
      have nq': "node_next pn \<noteq> q" using pn(4) qys nq(2) by (cases ys) auto
      have nc: "node_next pn \<noteq> 0 \<Longrightarrow> \<exists>nc. ?h (node_next pn) = Some nc"
        using pn(4,8) by (cases ys) (auto simp: chain_Cons split: option.splits)
      let ?cur = "if next_node s = p then node_next pn else next_node s"
      let ?s' = "s\<lparr>next_node := ?cur, heap := absorb ?h q p\<rparr>"
      have mp: "merge_prev p (s\<lparr>next_node := v\<rparr>) =
                  Inr (q, s\<lparr>next_node := v, heap := absorb ?h q p\<rparr>)" for v
      proof (cases "node_next pn = 0")
        case True
        show ?thesis
          using merge_prev_absorb[of p "s\<lparr>next_node := v\<rparr>" pn q nq undefined]
            pn(1,2) pv nq qp np nq' True by simp
      next
        case False
        from nc[OF False] obtain ncc where "?h (node_next pn) = Some ncc" ..
        then show ?thesis
          using merge_prev_absorb[of p "s\<lparr>next_node := v\<rparr>" pn q nq ncc]
            pn(1,2) pv nq qp np nq' by simp
      qed
      have mp0: "merge_prev p s = Inr (q, s\<lparr>heap := absorb ?h q p\<rparr>)"
        using mp[of "next_node s"] by simp
      have r: "coalesce_prev p s = Inr (q, ?s')"
        using pn(1,2) pv nq True mp mp0
        by (simp add: coalesce_prev_def comp_defs is_free_def)
      have bound: "?e \<le> hd (zs @ q # p # ys) + unat (heap_size s)"
        using hd snoc by simp
      note al = absorb_list[OF c2 t2 bound]
      have hd': "hd (zs @ q # ys) = linked_list s" using hd snoc by (cases zs) simp_all
      have cur': "?cur = 0 \<or> ?cur \<in> set (zs @ q # ys)"
        using cur pn(4) snoc by (cases ys) auto
      have wf': "well_formed ?s' (butlast xs @ last xs # ys)"
        using al hd' cur' snoc by (simp add: well_formed_def)
      show ?thesis
        using r wf' al snoc True pn(4)
        by (intro exI[of _ ?s']) (simp add: size_at_def[of ?h p])
    qed
  qed
qed

subsection \<open>A second release\<close>

lemma double_release_result:
  assumes "linked_list s \<noteq> 0" and "a \<noteq> 0" and "is_free (heap s) a"
    and "linked_list s \<le> memory_of a"
    and "memory_of a < linked_list s + unat (heap_size s)"
  shows "deallocate (memory_of a) s =
           Inr ((), s\<lparr>stderr := stderr s @ [''Error : memory already free'' @ [CHR 0x0A]]\<rparr>)"
  using assms
  by (auto simp: deallocate_def comp_defs is_free_def memory_of_def split: option.splits)

lemma layout_invariant: "invariant layout [1000, 1132, 1228, 1460, 1556]"
  by (simp add: invariant_def well_formed_def layout_def chain_Cons tiles_Cons is_free_def
      header_size_def)

subsection \<open>deallocate keeps the invariants\<close>

lemma naf_butlast: "no_adjacent_free h xs \<Longrightarrow> no_adjacent_free h (butlast xs)"
proof (cases xs rule: rev_cases)
  case Nil
  then show ?thesis by simp
next
  case (snoc zs q)
  assume "no_adjacent_free h xs"
  with snoc show ?thesis by (simp add: naf_append)
qed

lemma naf_tl: "no_adjacent_free h ys \<Longrightarrow> no_adjacent_free h (tl ys)"
proof (cases ys)
  case Nil
  then show ?thesis by simp
next
  case (Cons b bs)
  assume "no_adjacent_free h ys"
  with Cons naf_append[of h "[b]" bs] show ?thesis by simp
qed

lemma naf_release:
  assumes naf: "no_adjacent_free h (xs @ a # ys)"
    and xs': "xs' = (if xs \<noteq> [] \<and> is_free h (last xs) then butlast xs else xs)"
    and ys': "ys' = (if ys \<noteq> [] \<and> is_free h (hd ys) then tl ys else ys)"
    and same: "\<forall>x \<in> set xs' \<union> set ys'. is_free h' x = is_free h x"
  shows "no_adjacent_free h' (xs' @ r # ys')"
proof -
  from naf have nx: "no_adjacent_free h xs" and ny: "no_adjacent_free h ys"
    using naf_append[of h xs "a # ys"] naf_append[of h "[a]" ys] by simp_all
  have nx': "no_adjacent_free h xs'" using nx xs' by (simp add: naf_butlast)
  have ny': "no_adjacent_free h ys'" using ny ys' by (simp add: naf_tl)
  have bx: "\<not> is_free h (last xs')" if "xs' \<noteq> []"
  proof (cases "xs \<noteq> [] \<and> is_free h (last xs)")
    case True
    then obtain zs q where zs: "xs = zs @ [q]" by (cases xs rule: rev_cases) auto
    with True xs' have "xs' = zs" "is_free h q" by simp_all
    with nx zs that show ?thesis by (simp add: naf_append)
  next
    case False
    with xs' that show ?thesis by auto
  qed
  have by': "\<not> is_free h (hd ys')" if "ys' \<noteq> []"
  proof (cases "ys \<noteq> [] \<and> is_free h (hd ys)")
    case True
    then obtain b bs where bs: "ys = b # bs" by (cases ys) auto
    with True ys' have "ys' = bs" "is_free h b" by simp_all
    with ny bs that naf_append[of h "[b]" bs] show ?thesis by simp
  next
    case False
    with ys' that show ?thesis by auto
  qed
  have n1: "no_adjacent_free h' xs'"
    using nx' same by (simp add: naf_cong[of xs' h' h])
  have n2: "no_adjacent_free h' ys'"
    using ny' same by (simp add: naf_cong[of ys' h' h])
  have b1: "\<not> is_free h' (last xs')" if "xs' \<noteq> []"
    using bx[OF that] same that by simp
  have b2: "\<not> is_free h' (hd ys')" if "ys' \<noteq> []"
    using by'[OF that] same that by simp
  show ?thesis
    using n1 n2 b1 b2 naf_append[of h' xs' "r # ys'"] naf_append[of h' "[r]" ys']
    by auto
qed


lemma memory_of_back [simp]: "memory_of a - unat header_size = a"
  by (simp add: memory_of_def)

lemma deallocate_wf:
  assumes inv: "invariant s (xs @ a # ys)" and busy: "\<not> is_free (heap s) a"
    and xs': "xs' = (if xs \<noteq> [] \<and> is_free (heap s) (last xs) then butlast xs else xs)"
    and ys': "ys' = (if ys \<noteq> [] \<and> is_free (heap s) (hd ys) then tl ys else ys)"
    and r: "r = (if xs \<noteq> [] \<and> is_free (heap s) (last xs) then last xs else a)"
    and c1: "c1 = (if xs \<noteq> [] \<and> is_free (heap s) (last xs) \<and> next_node s = a
                   then (case ys of [] \<Rightarrow> 0 | b # _ \<Rightarrow> b) else next_node s)"
    and z1: "z1 = (if xs \<noteq> [] \<and> is_free (heap s) (last xs)
                   then size_at (heap s) (last xs) + (header_size + size_at (heap s) a)
                   else size_at (heap s) a)"
  shows "\<exists>s'. deallocate (memory_of a) s = Inr ((), s') \<and>
     linked_list s' = linked_list s \<and> heap_size s' = heap_size s \<and> bytes s' = bytes s \<and>
     allocate s' = allocate s \<and> stderr s' = stderr s \<and>
     invariant s' (xs' @ r # ys') \<and>
     is_free (heap s') r \<and>
     size_at (heap s') r = (if ys \<noteq> [] \<and> is_free (heap s) (hd ys)
                            then z1 + (header_size + size_at (heap s) (hd ys)) else z1) \<and>
     next_node s' = (if ys \<noteq> [] \<and> is_free (heap s) (hd ys) \<and> c1 = hd ys
                     then (case tl ys of [] \<Rightarrow> 0 | c # _ \<Rightarrow> c) else c1) \<and>
     (\<forall>x \<in> set xs' \<union> set ys'. is_free (heap s') x = is_free (heap s) x \<and>
                                size_at (heap s') x = size_at (heap s) x)"
proof -
  let ?h = "heap s" and ?e = "linked_list s + unat (heap_size s)"
  from inv have wf: "well_formed s (xs @ a # ys)" and naf: "no_adjacent_free ?h (xs @ a # ys)"
    by (simp_all add: invariant_def)
  from wf have c: "chain ?h 0 (xs @ a # ys) 0" and t: "tiles ?h (xs @ a # ys) ?e"
    and hd: "hd (xs @ a # ys) = linked_list s"
    and cur: "next_node s = 0 \<or> next_node s \<in> set (xs @ a # ys)"
    by (simp_all add: well_formed_def)
  from c t obtain na where na: "?h a = Some na" "a \<noteq> 0"
    "node_prev na = (if xs = [] then 0 else last xs)"
    "node_next na = (case ys of [] \<Rightarrow> 0 | b # _ \<Rightarrow> b)"
    "0 < node_size na"
    "a + 32 + unat (node_size na) = (case ys of [] \<Rightarrow> ?e | b # _ \<Rightarrow> b)"
    "chain ?h 0 xs a" "chain ?h a ys 0" "tiles ?h xs a" "tiles ?h ys ?e"
    and xs: "\<forall>x \<in> set xs. x < a \<and> x \<noteq> 0"
    and ys: "\<forall>y \<in> set ys. a + 32 + unat (node_size na) \<le> y \<and> y < ?e \<and> y \<noteq> 0"
    by (rule list_at)
  have ax: "a \<notin> set xs" using xs by auto
  have ay: "a \<notin> set ys" using ys by fastforce
  have hd0: "linked_list s \<noteq> 0"
    using hd chain_nonzero[OF c] by (metis hd_in_set Nil_is_append_conv list.distinct(1))
  have lo: "linked_list s \<le> a" using tiles_bounds[OF t, of a] hd by simp
  have ae: "a + 32 + unat (node_size na) \<le> ?e" using na(6) ys by (cases ys) auto
  have region: "linked_list s \<le> memory_of a \<and> memory_of a < ?e"
    using lo ae na(5) by (simp add: memory_of_def header_size_def word_less_nat_alt)
  have fa: "node_free na = 0" using busy na(1) by (simp add: is_free_def)
  \<comment> \<open>the block is marked free\<close>
  let ?s1 = "s\<lparr>heap := ?h(a \<mapsto> na\<lparr>node_free := 1\<rparr>)\<rparr>"
  have r1: "set_free a 1 s = Inr ((), ?s1)" using na(1,2) by (simp add: comp_defs)
  let ?h1 = "?h(a \<mapsto> na\<lparr>node_free := 1\<rparr>)"
  have f1: "is_free ?h1 x = (x = a \<or> is_free ?h x)" for x
    by (simp add: is_free_upd)
  have z1': "size_at ?h1 x = size_at ?h x" for x
    using na(1) by (simp add: size_at_upd size_at_def)
  have wf1: "well_formed ?s1 (xs @ a # ys)"
  proof -
    have "chain (heap ?s1) 0 (xs @ a # ys) 0"
      by (rule chain_mono[OF c]) (use na(1) in auto)
    moreover have "tiles (heap ?s1) (xs @ a # ys) ?e"
      by (rule tiles_mono[OF t]) (use na(1) in auto)
    ultimately show ?thesis using hd cur by (simp add: well_formed_def)
  qed
  have lx: "is_free ?h1 (last xs) = is_free ?h (last xs)" if "xs \<noteq> []"
    using that ax f1 by (metis last_in_set)
  \<comment> \<open>first stage\<close>
  let ?P = "xs \<noteq> [] \<and> is_free ?h (last xs)"
  have P1: "(xs \<noteq> [] \<and> is_free (heap ?s1) (last xs)) = ?P" using lx by auto
  have abl: "a \<notin> set (butlast xs)" using ax by (meson in_set_butlastD)
  from coalesce_prev_wf[OF wf1] obtain s2 where
    r2': "coalesce_prev a ?s1 =
            Inr (if xs \<noteq> [] \<and> is_free (heap ?s1) (last xs) then last xs else a, s2)"
    and k2: "linked_list s2 = linked_list ?s1" "heap_size s2 = heap_size ?s1"
      "bytes s2 = bytes ?s1" "allocate s2 = allocate ?s1" "stderr s2 = stderr ?s1"
    and e2': "if xs \<noteq> [] \<and> is_free (heap ?s1) (last xs)
      then well_formed s2 (butlast xs @ last xs # ys) \<and>
           next_node s2 = (if next_node ?s1 = a
                           then (case ys of [] \<Rightarrow> 0 | c # _ \<Rightarrow> c) else next_node ?s1) \<and>
           size_at (heap s2) (last xs) =
             size_at (heap ?s1) (last xs) + (header_size + size_at (heap ?s1) a) \<and>
           is_free (heap s2) (last xs) \<and>
           (\<forall>x \<in> set (butlast xs) \<union> set ys. is_free (heap s2) x = is_free (heap ?s1) x \<and>
                                       size_at (heap s2) x = size_at (heap ?s1) x)
      else s2 = ?s1"
    by blast
  have r2: "coalesce_prev a ?s1 = Inr (r, s2)" using r2' P1 r by simp
  have st2: "well_formed s2 (xs' @ r # ys) \<and> next_node s2 = c1 \<and> is_free (heap s2) r \<and>
     size_at (heap s2) r = z1 \<and>
     (\<forall>x \<in> set xs' \<union> set ys. is_free (heap s2) x = is_free ?h x \<and>
                               size_at (heap s2) x = size_at ?h x)"
  proof (cases ?P)
    case True
    then have P1t: "xs \<noteq> [] \<and> is_free (heap ?s1) (last xs)" using P1 by blast
    note e = e2'[unfolded if_P[OF P1t]]
    have x1: "xs' = butlast xs" "r = last xs" using True xs' r by simp_all
    have "\<forall>x \<in> set (butlast xs) \<union> set ys. is_free (heap s2) x = is_free ?h x \<and>
            size_at (heap s2) x = size_at ?h x"
    proof
      fix x assume x: "x \<in> set (butlast xs) \<union> set ys"
      then have "x \<noteq> a" using abl ay by auto
      moreover from e x have "is_free (heap s2) x = is_free ?h1 x \<and>
            size_at (heap s2) x = size_at ?h1 x" by simp
      ultimately show "is_free (heap s2) x = is_free ?h x \<and> size_at (heap s2) x = size_at ?h x"
        using f1 z1' by simp
    qed
    moreover have "next_node s2 = c1" using e c1 True by simp
    moreover have "size_at (heap s2) r = z1" using e z1 z1' True x1 by simp
    ultimately show ?thesis using e x1 by simp
  next
    case False
    then have P1f: "\<not> (xs \<noteq> [] \<and> is_free (heap ?s1) (last xs))" using P1 by blast
    note e = e2'[unfolded if_not_P[OF P1f]]
    have x1: "xs' = xs" "r = a" using False xs' r by auto
    have "\<forall>x \<in> set xs \<union> set ys. is_free ?h1 x = is_free ?h x \<and> size_at ?h1 x = size_at ?h x"
      using f1 z1' ax ay by auto
    moreover have "c1 = next_node s" using c1 False by auto
    moreover have "z1 = size_at ?h a" using z1 False by auto
    ultimately show ?thesis using e x1 wf1 f1 z1' by simp
  qed
  then have wf2: "well_formed s2 (xs' @ r # ys)" and cur2: "next_node s2 = c1"
    and fr2: "is_free (heap s2) r" and sz2: "size_at (heap s2) r = z1"
    and ot2: "\<forall>x \<in> set xs' \<union> set ys. is_free (heap s2) x = is_free ?h x \<and>
                                      size_at (heap s2) x = size_at ?h x"
    by blast+
  \<comment> \<open>second stage\<close>
  let ?N = "ys \<noteq> [] \<and> is_free ?h (hd ys)"
  have N2: "(ys \<noteq> [] \<and> is_free (heap s2) (hd ys)) = ?N" using ot2 by auto
  from coalesce_next_wf[OF wf2] obtain s3 where
    r3: "coalesce_next r s2 = Inr ((), s3)"
    and k3: "linked_list s3 = linked_list s2" "heap_size s3 = heap_size s2"
      "bytes s3 = bytes s2" "allocate s3 = allocate s2" "stderr s3 = stderr s2"
    and e3': "if ys \<noteq> [] \<and> is_free (heap s2) (hd ys)
      then well_formed s3 (xs' @ r # tl ys) \<and>
           next_node s3 = (if next_node s2 = hd ys
                           then (case tl ys of [] \<Rightarrow> 0 | c # _ \<Rightarrow> c) else next_node s2) \<and>
           size_at (heap s3) r = size_at (heap s2) r + (header_size + size_at (heap s2) (hd ys)) \<and>
           is_free (heap s3) r = is_free (heap s2) r \<and>
           (\<forall>x \<in> set xs' \<union> set (tl ys). is_free (heap s3) x = is_free (heap s2) x \<and>
                                       size_at (heap s3) x = size_at (heap s2) x)
      else s3 = s2"
    by blast
  have st3: "well_formed s3 (xs' @ r # ys') \<and>
     next_node s3 = (if ?N \<and> c1 = hd ys
                     then (case tl ys of [] \<Rightarrow> 0 | c # _ \<Rightarrow> c) else c1) \<and>
     is_free (heap s3) r \<and>
     size_at (heap s3) r = (if ?N then z1 + (header_size + size_at ?h (hd ys)) else z1) \<and>
     (\<forall>x \<in> set xs' \<union> set ys'. is_free (heap s3) x = is_free ?h x \<and>
                                size_at (heap s3) x = size_at ?h x)"
  proof (cases ?N)
    case True
    then have N2t: "ys \<noteq> [] \<and> is_free (heap s2) (hd ys)" using N2 by blast
    note e = e3'[unfolded if_P[OF N2t]]
    have y1: "ys' = tl ys" using True ys' by simp
    have sub: "set (tl ys) \<subseteq> set ys" using True by (cases ys) auto
    have hy: "hd ys \<in> set ys" using True by simp
    have "\<forall>x \<in> set xs' \<union> set (tl ys). is_free (heap s3) x = is_free ?h x \<and>
            size_at (heap s3) x = size_at ?h x"
      using e ot2 sub by auto
    moreover have "size_at (heap s3) r = z1 + (header_size + size_at ?h (hd ys))"
      using e sz2 ot2 hy by simp
    moreover have "next_node s3 = (if c1 = hd ys
                     then (case tl ys of [] \<Rightarrow> 0 | c # _ \<Rightarrow> c) else c1)"
      using e cur2 by simp
    ultimately show ?thesis using e y1 True fr2 by simp
  next
    case False
    then have N2f: "\<not> (ys \<noteq> [] \<and> is_free (heap s2) (hd ys))" using N2 by blast
    note e = e3'[unfolded if_not_P[OF N2f]]
    have y1: "ys' = ys" using False ys' by auto
    show ?thesis using e y1 False wf2 cur2 fr2 sz2 ot2 by auto
  qed
  then have wf3: "well_formed s3 (xs' @ r # ys')"
    and cur3: "next_node s3 = (if ?N \<and> c1 = hd ys
                     then (case tl ys of [] \<Rightarrow> 0 | c # _ \<Rightarrow> c) else c1)"
    and fr3: "is_free (heap s3) r"
    and sz3: "size_at (heap s3) r = (if ?N then z1 + (header_size + size_at ?h (hd ys)) else z1)"
    and ot3: "\<forall>x \<in> set xs' \<union> set ys'. is_free (heap s3) x = is_free ?h x \<and>
                                      size_at (heap s3) x = size_at ?h x"
    by blast+
  have naf3: "no_adjacent_free (heap s3) (xs' @ r # ys')"
    by (rule naf_release[OF naf xs' ys']) (use ot3 in simp)
  have res: "deallocate (memory_of a) s = Inr ((), s3)"
    using hd0 region na(1,2) fa r1 r2 r3
    by (simp add: deallocate_stages bnd_def assert_c_def ret_def get_free_def rd_def
        memory_of_def header_size_def)
  show ?thesis
    using res k2 k3 wf3 naf3 fr3 sz3 cur3 ot3
    by (intro exI[of _ s3]) (simp add: invariant_def)
qed

subsection \<open>From the invariants of the proofs to those of the specification\<close>

lemma list_from_chain:
  "chain h pr as 0 \<Longrightarrow> list_from h (case as of [] \<Rightarrow> 0 | a # _ \<Rightarrow> a) = Some as"
proof (induction as arbitrary: pr)
  case Nil
  then show ?case by (simp add: list_from.simps)
next
  case (Cons a as)
  from Cons.prems obtain n where n: "h a = Some n" "a \<noteq> 0"
    "node_next n = (case as of [] \<Rightarrow> 0 | b # _ \<Rightarrow> b)" "chain h a as 0"
    by (auto simp: chain_Cons split: option.splits)
  from Cons.IH[OF n(4)] n(1,2,3) show ?case
    by (subst list_from.simps) simp
qed

lemma block_list_wf: "well_formed s as \<Longrightarrow> block_list s = Some as"
  using list_from_chain[of "heap s" 0 as]
  by (cases as) (auto simp: well_formed_def block_list_def)

lemma chain_doubly_linked:
  "chain h pr as 0 \<Longrightarrow>
   (pr \<noteq> 0 \<Longrightarrow> as \<noteq> [] \<Longrightarrow> \<exists>m. h pr = Some m \<and> node_next m = hd as) \<Longrightarrow>
   doubly_linked h as"
proof (induction as arbitrary: pr)
  case Nil
  then show ?case by (simp add: doubly_linked_def)
next
  case (Cons a as)
  from Cons.prems(1) obtain n where n: "h a = Some n" "a \<noteq> 0" "node_prev n = pr"
    "node_next n = (case as of [] \<Rightarrow> 0 | b # _ \<Rightarrow> b)" "chain h a as 0"
    by (auto simp: chain_Cons split: option.splits)
  have rest: "doubly_linked h as"
    by (rule Cons.IH[OF n(5)]) (use n in \<open>cases as; simp\<close>)
  have p: "node_prev n = 0 \<or> (case h (node_prev n) of None \<Rightarrow> False | Some m \<Rightarrow> node_next m = a)"
    using Cons.prems(2) n(3) by (cases "pr = 0") auto
  have q: "node_next n = 0 \<or> (case h (node_next n) of None \<Rightarrow> False | Some m \<Rightarrow> node_prev m = a)"
  proof (cases as)
    case Nil
    then show ?thesis using n(4) by simp
  next
    case (Cons b bs)
    with n(5) obtain nb where "h b = Some nb" "node_prev nb = a"
      by (auto simp: chain_Cons split: option.splits)
    with Cons n(4) show ?thesis by simp
  qed
  show ?case using rest p q n(1) by (simp add: doubly_linked_def)
qed

lemma tiles_total: "tiles h as e \<Longrightarrow> as \<noteq> [] \<Longrightarrow> hd as + total_bytes h as = e"
proof (induction as)
  case Nil
  then show ?case by simp
next
  case (Cons a as)
  from Cons.prems(1) obtain n where n: "h a = Some n"
    "a + unat header_size + unat (node_size n) = (case as of [] \<Rightarrow> e | b # _ \<Rightarrow> b)"
    "tiles h as e"
    by (auto simp: tiles_Cons split: option.splits)
  show ?case
  proof (cases as)
    case Nil
    with n show ?thesis by (simp add: total_bytes_def size_at_def)
  next
    case (Cons b bs)
    with Cons.IH[OF n(3)] n(1,2) show ?thesis by (simp add: total_bytes_def size_at_def)
  qed
qed

lemma tiles_positive: "tiles h as e \<Longrightarrow> sizes_positive h as"
  by (induction as) (auto simp: tiles_Cons sizes_positive_def size_at_def split: option.splits)

lemma invariant_structural: "invariant s as \<Longrightarrow> structural_invariants s"
proof -
  assume inv: "invariant s as"
  then have wf: "well_formed s as" and naf: "no_adjacent_free (heap s) as"
    by (simp_all add: invariant_def)
  from wf have c: "chain (heap s) 0 as 0" and ne: "as \<noteq> []" and hd: "hd as = linked_list s"
    and t: "tiles (heap s) as (linked_list s + unat (heap_size s))"
    by (simp_all add: well_formed_def)
  have "doubly_linked (heap s) as" by (rule chain_doubly_linked[OF c]) simp
  moreover have "total_bytes (heap s) as = unat (heap_size s)"
    using tiles_total[OF t ne] hd by simp
  moreover note tiles_positive[OF t] naf block_list_wf[OF wf]
  ultimately show ?thesis by (simp add: structural_invariants_def)
qed

subsection \<open>The loops of first-fit, best-fit and worst-fit\<close>

lemma chain_ConsE:
  assumes "chain h pr (a # as) nx"
  obtains n where "h a = Some n" "a \<noteq> 0" "node_prev n = pr"
    "node_next n = (case as of [] \<Rightarrow> nx | b # _ \<Rightarrow> b)" "chain h a as nx"
  using assms by (auto simp: chain_Cons split: option.splits)

lemma first_fit_loop_chain:
  "chain (heap s) pr as 0 \<Longrightarrow>
   first_fit_loop n (case as of [] \<Rightarrow> 0 | a # _ \<Rightarrow> a) s =
     Some (case find (fits (heap s) n) as of
             None \<Rightarrow> Inr (0, s)
           | Some a \<Rightarrow> bnd (allocate_node a n) (\<lambda>_. ret (memory_of a)) s)"
proof (induction as arbitrary: pr)
  case Nil
  then show ?case by (subst first_fit_loop.simps) simp
next
  case (Cons a as)
  from Cons.prems obtain na where na: "heap s a = Some na" "a \<noteq> 0"
    "node_next na = (case as of [] \<Rightarrow> 0 | b # _ \<Rightarrow> b)" "chain (heap s) a as 0"
    by (auto elim: chain_ConsE)
  have f: "fits (heap s) n a = (node_free na \<noteq> 0 \<and> n \<le> node_size na)"
    using na(1) by (simp add: fits_def is_free_def size_at_def)
  show ?case
    using Cons.IH[OF na(4)] na(1,2,3) f
    by (subst first_fit_loop.simps) (simp add: rd_def)
qed

lemma best_fit_loop_chain:
  "chain (heap s) pr as 0 \<Longrightarrow>
   best_fit_loop n (case as of [] \<Rightarrow> 0 | a # _ \<Rightarrow> a) sz sm s =
     Some (Inr (best_scan (heap s) n as sz sm))"
proof (induction as arbitrary: pr sz sm)
  case Nil
  then show ?case by (subst best_fit_loop.simps) simp
next
  case (Cons a as)
  from Cons.prems obtain na where na: "heap s a = Some na" "a \<noteq> 0"
    "node_next na = (case as of [] \<Rightarrow> 0 | b # _ \<Rightarrow> b)" "chain (heap s) a as 0"
    by (auto elim: chain_ConsE)
  have f: "fits (heap s) n a = (node_free na \<noteq> 0 \<and> n \<le> node_size na)"
    and z: "size_at (heap s) a = node_size na"
    using na(1) by (simp_all add: fits_def is_free_def size_at_def)
  show ?case
    using Cons.IH[OF na(4)] na(1,2,3) f z
    by (subst best_fit_loop.simps) (simp add: rd_def)
qed

lemma worst_fit_loop_chain:
  "chain (heap s) pr as 0 \<Longrightarrow>
   worst_fit_loop (case as of [] \<Rightarrow> 0 | a # _ \<Rightarrow> a) sz lg s =
     Some (Inr (worst_scan (heap s) as sz lg))"
proof (induction as arbitrary: pr sz lg)
  case Nil
  then show ?case by (subst worst_fit_loop.simps) simp
next
  case (Cons a as)
  from Cons.prems obtain na where na: "heap s a = Some na" "a \<noteq> 0"
    "node_next na = (case as of [] \<Rightarrow> 0 | b # _ \<Rightarrow> b)" "chain (heap s) a as 0"
    by (auto elim: chain_ConsE)
  have f: "is_free (heap s) a = (node_free na \<noteq> 0)"
    and z: "size_at (heap s) a = node_size na"
    using na(1) by (simp_all add: is_free_def size_at_def)
  show ?case
    using Cons.IH[OF na(4)] na(1,2,3) f z
    by (subst worst_fit_loop.simps) (simp add: rd_def)
qed

lemma best_scan_choice:
  "sorted_wrt (<) as \<Longrightarrow>
   (best_scan h n as sz sm = sm \<and> (\<forall>b \<in> set as. fits h n b \<longrightarrow> sz \<le> size_at h b)) \<or>
   (best_scan h n as sz sm \<in> set as \<and> fits h n (best_scan h n as sz sm) \<and>
    size_at h (best_scan h n as sz sm) < sz \<and>
    (\<forall>b \<in> set as. fits h n b \<longrightarrow>
        size_at h (best_scan h n as sz sm) \<le> size_at h b \<and>
        (size_at h b = size_at h (best_scan h n as sz sm) \<longrightarrow> best_scan h n as sz sm \<le> b)))"
proof (induction as arbitrary: sz sm)
  case Nil
  then show ?case by simp
next
  case (Cons a as)
  from Cons.prems have srt: "sorted_wrt (<) as" and lt: "\<forall>b \<in> set as. a < b" by simp_all
  show ?case
  proof (cases "fits h n a \<and> size_at h a < sz")
    case True
    define r where "r = best_scan h n as (size_at h a) a"
    have eq: "best_scan h n (a # as) sz sm = r" using True by (simp add: r_def)
    from Cons.IH[OF srt, of "size_at h a" a]
    consider (keep) "r = a" "\<forall>b \<in> set as. fits h n b \<longrightarrow> size_at h a \<le> size_at h b"
      | (later) "r \<in> set as" "fits h n r" "size_at h r < size_at h a"
          "\<forall>b \<in> set as. fits h n b \<longrightarrow> size_at h r \<le> size_at h b \<and>
               (size_at h b = size_at h r \<longrightarrow> r \<le> b)"
      unfolding r_def by blast
    then have "r \<in> set (a # as) \<and> fits h n r \<and> size_at h r < sz \<and>
      (\<forall>b \<in> set (a # as). fits h n b \<longrightarrow> size_at h r \<le> size_at h b \<and>
               (size_at h b = size_at h r \<longrightarrow> r \<le> b))"
    proof cases
      case keep
      have "a \<le> b" if "b \<in> set as" for b using lt that by (simp add: less_imp_le)
      with keep True show ?thesis by auto
    next
      case later
      have "size_at h r \<le> size_at h a" "size_at h a \<noteq> size_at h r" "size_at h r < sz"
        using later(3) True by auto
      with later show ?thesis by auto
    qed
    then show ?thesis unfolding eq by blast
  next
    case False
    define r where "r = best_scan h n as sz sm"
    have eq: "best_scan h n (a # as) sz sm = r" using False by (auto simp: r_def)
    have fa: "sz \<le> size_at h a" if "fits h n a" using False that by auto
    from Cons.IH[OF srt, of sz sm]
    consider (none) "r = sm" "\<forall>b \<in> set as. fits h n b \<longrightarrow> sz \<le> size_at h b"
      | (found) "r \<in> set as" "fits h n r" "size_at h r < sz"
          "\<forall>b \<in> set as. fits h n b \<longrightarrow> size_at h r \<le> size_at h b \<and>
               (size_at h b = size_at h r \<longrightarrow> r \<le> b)"
      unfolding r_def by blast
    then show ?thesis
    proof cases
      case none
      with fa have "\<forall>b \<in> set (a # as). fits h n b \<longrightarrow> sz \<le> size_at h b" by auto
      with none(1) show ?thesis unfolding eq by blast
    next
      case found
      have "size_at h r \<le> size_at h a \<and> size_at h a \<noteq> size_at h r" if "fits h n a"
        using fa[OF that] found(3) by auto
      with found have "r \<in> set (a # as) \<and> fits h n r \<and> size_at h r < sz \<and>
        (\<forall>b \<in> set (a # as). fits h n b \<longrightarrow> size_at h r \<le> size_at h b \<and>
               (size_at h b = size_at h r \<longrightarrow> r \<le> b))" by auto
      then show ?thesis unfolding eq by blast
    qed
  qed
qed

lemma worst_scan_choice:
  "sorted_wrt (<) as \<Longrightarrow>
   (worst_scan h as sz lg = lg \<and> (\<forall>b \<in> set as. is_free h b \<longrightarrow> size_at h b \<le> sz)) \<or>
   (worst_scan h as sz lg \<in> set as \<and> is_free h (worst_scan h as sz lg) \<and>
    sz < size_at h (worst_scan h as sz lg) \<and>
    (\<forall>b \<in> set as. is_free h b \<longrightarrow>
        size_at h b \<le> size_at h (worst_scan h as sz lg) \<and>
        (size_at h b = size_at h (worst_scan h as sz lg) \<longrightarrow> worst_scan h as sz lg \<le> b)))"
proof (induction as arbitrary: sz lg)
  case Nil
  then show ?case by simp
next
  case (Cons a as)
  from Cons.prems have srt: "sorted_wrt (<) as" and lt: "\<forall>b \<in> set as. a < b" by simp_all
  show ?case
  proof (cases "is_free h a \<and> sz < size_at h a")
    case True
    define r where "r = worst_scan h as (size_at h a) a"
    have eq: "worst_scan h (a # as) sz lg = r" using True by (simp add: r_def)
    from Cons.IH[OF srt, of "size_at h a" a]
    consider (keep) "r = a" "\<forall>b \<in> set as. is_free h b \<longrightarrow> size_at h b \<le> size_at h a"
      | (later) "r \<in> set as" "is_free h r" "size_at h a < size_at h r"
          "\<forall>b \<in> set as. is_free h b \<longrightarrow> size_at h b \<le> size_at h r \<and>
               (size_at h b = size_at h r \<longrightarrow> r \<le> b)"
      unfolding r_def by blast
    then have "r \<in> set (a # as) \<and> is_free h r \<and> sz < size_at h r \<and>
      (\<forall>b \<in> set (a # as). is_free h b \<longrightarrow> size_at h b \<le> size_at h r \<and>
               (size_at h b = size_at h r \<longrightarrow> r \<le> b))"
    proof cases
      case keep
      have "a \<le> b" if "b \<in> set as" for b using lt that by (simp add: less_imp_le)
      with keep True show ?thesis by auto
    next
      case later
      have "size_at h a \<le> size_at h r" "size_at h a \<noteq> size_at h r" "sz < size_at h r"
        using later(3) True by auto
      with later show ?thesis by auto
    qed
    then show ?thesis unfolding eq by blast
  next
    case False
    define r where "r = worst_scan h as sz lg"
    have eq: "worst_scan h (a # as) sz lg = r" using False by (auto simp: r_def)
    have fa: "size_at h a \<le> sz" if "is_free h a" using False that by auto
    from Cons.IH[OF srt, of sz lg]
    consider (none) "r = lg" "\<forall>b \<in> set as. is_free h b \<longrightarrow> size_at h b \<le> sz"
      | (found) "r \<in> set as" "is_free h r" "sz < size_at h r"
          "\<forall>b \<in> set as. is_free h b \<longrightarrow> size_at h b \<le> size_at h r \<and>
               (size_at h b = size_at h r \<longrightarrow> r \<le> b)"
      unfolding r_def by blast
    then show ?thesis
    proof cases
      case none
      with fa have "\<forall>b \<in> set (a # as). is_free h b \<longrightarrow> size_at h b \<le> sz" by auto
      with none(1) show ?thesis unfolding eq by blast
    next
      case found
      have "size_at h a \<le> size_at h r \<and> size_at h a \<noteq> size_at h r" if "is_free h a"
        using fa[OF that] found(3) by auto
      with found have "r \<in> set (a # as) \<and> is_free h r \<and> sz < size_at h r \<and>
        (\<forall>b \<in> set (a # as). is_free h b \<longrightarrow> size_at h b \<le> size_at h r \<and>
               (size_at h b = size_at h r \<longrightarrow> r \<le> b))" by auto
      then show ?thesis unfolding eq by blast
    qed
  qed
qed

subsection \<open>Best-fit and worst-fit\<close>

lemma dec_less_iff: "0 < n \<Longrightarrow> (n - 1 < x) = (n \<le> x)" for n x :: size_t
  by unat_arith

lemma size_lt_heap:
  assumes "well_formed s as" "a \<in> set as"
  shows "size_at (heap s) a < heap_size s"
proof -
  let ?e = "linked_list s + unat (heap_size s)"
  from assms(2) obtain xs ys where as: "as = xs @ a # ys" by (auto dest: split_list)
  from assms(1) as have c: "chain (heap s) 0 (xs @ a # ys) 0"
    and t: "tiles (heap s) (xs @ a # ys) ?e"
    and hd: "hd (xs @ a # ys) = linked_list s"
    by (simp_all add: well_formed_def)
  from c t obtain na where na: "heap s a = Some na"
    "a + 32 + unat (node_size na) = (case ys of [] \<Rightarrow> ?e | b # _ \<Rightarrow> b)"
    and ys: "\<forall>y \<in> set ys. a + 32 + unat (node_size na) \<le> y \<and> y < ?e \<and> y \<noteq> 0"
    by (rule list_at)
  have "a + 32 + unat (node_size na) \<le> ?e" using na(2) ys by (cases ys) auto
  moreover have "linked_list s \<le> a" using tiles_bounds[OF t, of a] hd by simp
  ultimately have "unat (node_size na) < unat (heap_size s)" by simp
  then show ?thesis using na(1) by (simp add: size_at_def word_less_nat_alt)
qed

lemma wf_sorted: "well_formed s as \<Longrightarrow> sorted_wrt (<) as"
  by (auto simp: well_formed_def intro: tiles_sorted)

lemma allocate_node_ok:
  assumes "well_formed s as" "a \<in> set as" "0 < n" "n \<le> size_at (heap s) a"
  shows "\<exists>s'. allocate_node a n s = Inr (a, s')"
proof -
  from assms(2) obtain xs ys where as: "as = xs @ a # ys" by (auto dest: split_list)
  from allocate_node_wf[OF assms(1)[unfolded as] assms(3,4)] show ?thesis by blast
qed

lemma best_fit_result:
  assumes inv: "invariant s as" and n: "0 < n"
  shows "if \<exists>b \<in> set as. fits (heap s) n b
         then \<exists>r s'. allocate_best_fit n s = Some (Inr (memory_of r, s')) \<and>
                allocate_node r n s = Inr (r, s') \<and>
                r \<in> set as \<and> fits (heap s) n r \<and>
                (\<forall>b \<in> set as. fits (heap s) n b \<longrightarrow>
                    size_at (heap s) r \<le> size_at (heap s) b \<and>
                    (size_at (heap s) b = size_at (heap s) r \<longrightarrow> r \<le> b))
         else allocate_best_fit n s = Some (Inr (0, s))"
proof -
  let ?h = "heap s"
  from inv have wf: "well_formed s as" by (simp add: invariant_def)
  then have c: "chain ?h 0 as 0" and ne: "as \<noteq> []" and hd: "hd as = linked_list s"
    by (simp_all add: well_formed_def)
  have hd0: "linked_list s \<noteq> 0" using chain_nonzero[OF c] ne hd by (metis hd_in_set)
  have hdc: "(case as of [] \<Rightarrow> 0 | a # _ \<Rightarrow> a) = linked_list s" using ne hd by (cases as) auto
  define r where "r = best_scan ?h n as (heap_size s) 0"
  have loop: "best_fit_loop n (linked_list s) (heap_size s) 0 s = Some (Inr r)"
    using best_fit_loop_chain[OF c, of n "heap_size s" 0] hdc by (simp add: r_def)
  have res: "allocate_best_fit n s =
     Some (if r \<noteq> 0 then bnd (allocate_node r n) (\<lambda>p. ret (memory_of p)) s else Inr (0, s))"
    using n hd0 loop by (simp add: allocate_best_fit_def)
  from best_scan_choice[OF wf_sorted[OF wf], of ?h n "heap_size s" 0]
  consider (none) "r = 0" "\<forall>b \<in> set as. fits ?h n b \<longrightarrow> heap_size s \<le> size_at ?h b"
    | (found) "r \<in> set as" "fits ?h n r"
        "\<forall>b \<in> set as. fits ?h n b \<longrightarrow> size_at ?h r \<le> size_at ?h b \<and>
             (size_at ?h b = size_at ?h r \<longrightarrow> r \<le> b)"
    unfolding r_def by (elim disjE conjE) auto
  then show ?thesis
  proof cases
    case none
    have "\<not> fits ?h n b" if "b \<in> set as" for b
      using none(2) size_lt_heap[OF wf that] that by auto
    with none(1) res show ?thesis by auto
  next
    case found
    have r0: "r \<noteq> 0" using found(1) chain_nonzero[OF c] by (cases "r = 0") auto
    from found(2) have le: "n \<le> size_at ?h r" by (simp add: fits_def)
    from allocate_node_ok[OF wf found(1) n le] obtain s' where
      s': "allocate_node r n s = Inr (r, s')" ..
    have "allocate_best_fit n s = Some (Inr (memory_of r, s'))"
      using res r0 s' by (simp add: bnd_def ret_def)
    with s' found show ?thesis by auto
  qed
qed

lemma worst_fit_result:
  assumes inv: "invariant s as" and n: "0 < n"
  shows "(\<forall>b. (is_free (heap s) b \<and> n - 1 < size_at (heap s) b) = fits (heap s) n b) \<and>
        (if \<exists>b \<in> set as. fits (heap s) n b
         then \<exists>r s'. allocate_worst_fit n s = Some (Inr (memory_of r, s')) \<and>
                allocate_node r n s = Inr (r, s') \<and>
                r \<in> set as \<and> fits (heap s) n r \<and>
                (\<forall>b \<in> set as. fits (heap s) n b \<longrightarrow>
                    size_at (heap s) b \<le> size_at (heap s) r \<and>
                    (size_at (heap s) b = size_at (heap s) r \<longrightarrow> r \<le> b))
         else allocate_worst_fit n s = Some (Inr (0, s)))"
proof -
  let ?h = "heap s"
  from inv have wf: "well_formed s as" by (simp add: invariant_def)
  then have c: "chain ?h 0 as 0" and ne: "as \<noteq> []" and hd: "hd as = linked_list s"
    by (simp_all add: well_formed_def)
  have hd0: "linked_list s \<noteq> 0" using chain_nonzero[OF c] ne hd by (metis hd_in_set)
  have hdc: "(case as of [] \<Rightarrow> 0 | a # _ \<Rightarrow> a) = linked_list s" using ne hd by (cases as) auto
  have fit: "(is_free ?h b \<and> n - 1 < size_at ?h b) = fits ?h n b" for b
    using dec_less_iff[OF n] by (simp add: fits_def)
  define r where "r = worst_scan ?h as (n - 1) 0"
  have loop: "worst_fit_loop (linked_list s) (n - 1) 0 s = Some (Inr r)"
    using worst_fit_loop_chain[OF c, of "n - 1" 0] hdc by (simp add: r_def)
  have res: "allocate_worst_fit n s =
     Some (if r \<noteq> 0 then bnd (allocate_node r n) (\<lambda>p. ret (memory_of p)) s else Inr (0, s))"
    using n hd0 loop by (simp add: allocate_worst_fit_def)
  from worst_scan_choice[OF wf_sorted[OF wf], of ?h "n - 1" 0]
  consider (none) "r = 0" "\<forall>b \<in> set as. is_free ?h b \<longrightarrow> size_at ?h b \<le> n - 1"
    | (found) "r \<in> set as" "is_free ?h r" "n - 1 < size_at ?h r"
        "\<forall>b \<in> set as. is_free ?h b \<longrightarrow> size_at ?h b \<le> size_at ?h r \<and>
             (size_at ?h b = size_at ?h r \<longrightarrow> r \<le> b)"
    unfolding r_def by (elim disjE conjE) auto
  then have "if \<exists>b \<in> set as. fits (heap s) n b
         then \<exists>r s'. allocate_worst_fit n s = Some (Inr (memory_of r, s')) \<and>
                allocate_node r n s = Inr (r, s') \<and>
                r \<in> set as \<and> fits (heap s) n r \<and>
                (\<forall>b \<in> set as. fits (heap s) n b \<longrightarrow>
                    size_at (heap s) b \<le> size_at (heap s) r \<and>
                    (size_at (heap s) b = size_at (heap s) r \<longrightarrow> r \<le> b))
         else allocate_worst_fit n s = Some (Inr (0, s))"
  proof cases
    case none
    have "\<not> fits ?h n b" if "b \<in> set as" for b
      using none(2) that fit[of b] by auto
    with none(1) res show ?thesis by auto
  next
    case found
    have r0: "r \<noteq> 0" using found(1) chain_nonzero[OF c] by (cases "r = 0") auto
    have fr: "fits ?h n r" using found(2,3) fit[of r] by simp
    then have le: "n \<le> size_at ?h r" by (simp add: fits_def)
    from allocate_node_ok[OF wf found(1) n le] obtain s' where
      s': "allocate_node r n s = Inr (r, s')" ..
    have "allocate_worst_fit n s = Some (Inr (memory_of r, s'))"
      using res r0 s' by (simp add: bnd_def ret_def)
    moreover have "\<forall>b \<in> set as. fits ?h n b \<longrightarrow> size_at ?h b \<le> size_at ?h r \<and>
             (size_at ?h b = size_at ?h r \<longrightarrow> r \<le> b)"
      using found(4) by (simp add: fits_def)
    ultimately show ?thesis using s' found(1) fr by auto
  qed
  with fit show ?thesis by blast
qed

subsection \<open>The loop of next-fit\<close>

lemma next_fit_seg:
  "chain (heap s) pr zs posn \<Longrightarrow> zs \<noteq> [] \<Longrightarrow> posn \<noteq> 0 \<Longrightarrow> posn \<notin> set (tl zs) \<Longrightarrow>
   next_fit_loop n posn (hd zs) s =
     Some (case find (fits (heap s) n) zs of
             None \<Rightarrow> Inr (0, s) | Some a \<Rightarrow> next_fit_take a n s)"
proof (induction zs arbitrary: pr)
  case Nil
  then show ?case by simp
next
  case (Cons a zs)
  from Cons.prems(1) obtain na where na: "heap s a = Some na" "a \<noteq> 0"
    "node_next na = (case zs of [] \<Rightarrow> posn | b # _ \<Rightarrow> b)" "chain (heap s) a zs posn"
    by (auto elim: chain_ConsE)
  have f: "fits (heap s) n a = (node_free na \<noteq> 0 \<and> n \<le> node_size na)"
    using na(1) by (simp add: fits_def is_free_def size_at_def)
  show ?case
  proof (cases zs)
    case Nil
    then show ?thesis using na f Cons.prems(3)
      by (subst next_fit_loop.simps) (simp add: rd_def next_fit_take_def)
  next
    case (Cons b bs)
    have b0: "b \<noteq> 0" using na(4) Cons by (auto elim: chain_ConsE)
    have bp: "b \<noteq> posn" using Cons.prems(4) Cons by auto
    have "posn \<notin> set (tl zs)" using Cons.prems(4) Cons by auto
    from Cons.IH[OF na(4) _ Cons.prems(3) this] Cons
    have ih: "next_fit_loop n posn b s =
       Some (case find (fits (heap s) n) zs of
               None \<Rightarrow> Inr (0, s) | Some a \<Rightarrow> next_fit_take a n s)" by simp
    show ?thesis using na f b0 bp ih Cons
      by (subst next_fit_loop.simps) (simp add: rd_def next_fit_take_def)
  qed
qed

lemma next_fit_tail:
  "chain (heap s) pr zs 0 \<Longrightarrow> zs \<noteq> [] \<Longrightarrow> posn \<notin> set (tl zs) \<Longrightarrow>
   next_fit_loop n posn (hd zs) s =
     (case find (fits (heap s) n) zs of
        Some a \<Rightarrow> Some (next_fit_take a n s)
      | None \<Rightarrow> if linked_list s \<noteq> posn then next_fit_loop n posn (linked_list s) s
                else Some (Inr (0, s)))"
proof (induction zs arbitrary: pr)
  case Nil
  then show ?case by simp
next
  case (Cons a zs)
  from Cons.prems(1) obtain na where na: "heap s a = Some na" "a \<noteq> 0"
    "node_next na = (case zs of [] \<Rightarrow> 0 | b # _ \<Rightarrow> b)" "chain (heap s) a zs 0"
    by (auto elim: chain_ConsE)
  have f: "fits (heap s) n a = (node_free na \<noteq> 0 \<and> n \<le> node_size na)"
    using na(1) by (simp add: fits_def is_free_def size_at_def)
  show ?case
  proof (cases zs)
    case Nil
    then show ?thesis using na f
      by (subst next_fit_loop.simps) (simp add: rd_def next_fit_take_def)
  next
    case (Cons b bs)
    have b0: "b \<noteq> 0" using na(4) Cons by (auto elim: chain_ConsE)
    have bp: "b \<noteq> posn" using Cons.prems(3) Cons by auto
    have "posn \<notin> set (tl zs)" using Cons.prems(3) Cons by auto
    from Cons.IH[OF na(4) _ this] Cons
    have ih: "next_fit_loop n posn b s =
     (case find (fits (heap s) n) zs of
        Some a \<Rightarrow> Some (next_fit_take a n s)
      | None \<Rightarrow> if linked_list s \<noteq> posn then next_fit_loop n posn (linked_list s) s
                else Some (Inr (0, s)))" by simp
    show ?thesis using na f b0 bp ih Cons
      by (subst next_fit_loop.simps) (simp add: rd_def next_fit_take_def)
  qed
qed

lemma find_append:
  "find P (xs @ ys) = (case find P xs of Some a \<Rightarrow> Some a | None \<Rightarrow> find P ys)"
  by (induction xs) auto

lemma next_fit_loop_order:
  assumes wf: "well_formed s (xs @ c # ys)"
  shows "next_fit_loop n c c s =
     Some (case find (fits (heap s) n) (c # ys @ xs) of
             None \<Rightarrow> Inr (0, s) | Some a \<Rightarrow> next_fit_take a n s)"
proof -
  let ?h = "heap s" and ?e = "linked_list s + unat (heap_size s)"
  from wf have c: "chain ?h 0 (xs @ c # ys) 0" and t: "tiles ?h (xs @ c # ys) ?e"
    and hd: "hd (xs @ c # ys) = linked_list s"
    by (simp_all add: well_formed_def)
  from c t obtain nc where nc: "?h c = Some nc" "c \<noteq> 0"
    "chain ?h 0 xs c"
    and xsb: "\<forall>x \<in> set xs. x < c \<and> x \<noteq> 0"
    and ysb: "\<forall>y \<in> set ys. c + 32 + unat (node_size nc) \<le> y \<and> y < ?e \<and> y \<noteq> 0"
    by (rule list_at)
  have c2: "chain ?h (if xs = [] then 0 else last xs) (c # ys) 0"
    using c by (simp add: chain_append)
  have cy: "c \<notin> set ys" using ysb by fastforce
  have cx: "c \<notin> set xs" using xsb by auto
  have t1: "next_fit_loop n c c s =
     (case find (fits ?h n) (c # ys) of
        Some a \<Rightarrow> Some (next_fit_take a n s)
      | None \<Rightarrow> if linked_list s \<noteq> c then next_fit_loop n c (linked_list s) s
                else Some (Inr (0, s)))"
    using next_fit_tail[OF c2, of c n] cy by simp
  show ?thesis
  proof (cases xs)
    case Nil
    then have "linked_list s = c" using hd by simp
    with t1 Nil show ?thesis by (simp split: option.splits)
  next
    case (Cons x xs')
    then have hx: "linked_list s = hd xs" "linked_list s \<noteq> c" "xs \<noteq> []"
      using hd cx by auto
    have "c \<notin> set (tl xs)" using cx Cons by auto
    from next_fit_seg[OF nc(3) hx(3) nc(2) this, of n] hx
    have t2: "next_fit_loop n c (linked_list s) s =
       Some (case find (fits ?h n) xs of
               None \<Rightarrow> Inr (0, s) | Some a \<Rightarrow> next_fit_take a n s)" by simp
    have "find (fits ?h n) (c # ys @ xs) =
       (case find (fits ?h n) (c # ys) of Some a \<Rightarrow> Some a | None \<Rightarrow> find (fits ?h n) xs)"
      using find_append[of "fits ?h n" "c # ys" xs] by simp
    with t1 t2 hx show ?thesis by (simp split: option.splits)
  qed
qed

subsection \<open>The blocks next-fit reads\<close>

lemma visited_Nil [simp]: "visited h n [] = []"
  by (simp add: visited_def)

lemma visited_Cons:
  "visited h n (a # zs) = (if fits h n a then [a] else a # visited h n zs)"
  by (simp add: visited_def)

lemma visited_append:
  "visited h n (zs @ xs) =
     (if \<exists>a \<in> set zs. fits h n a then visited h n zs else zs @ visited h n xs)"
  by (induction zs) (auto simp: visited_Cons)

lemma visited_none: "\<not> (\<exists>a \<in> set zs. fits h n a) \<Longrightarrow> visited h n zs = zs"
  by (induction zs) (auto simp: visited_Cons)

lemma visited_prefix: "\<exists>rest. order = visited h n order @ rest"
  by (induction order) (auto simp: visited_Cons)

lemma next_fit_visits_seg:
  "chain (heap s) pr zs posn \<Longrightarrow> zs \<noteq> [] \<Longrightarrow> posn \<noteq> 0 \<Longrightarrow> posn \<notin> set (tl zs) \<Longrightarrow>
   next_fit_visits n posn (hd zs) seen s = Some (seen @ visited (heap s) n zs)"
proof (induction zs arbitrary: pr seen)
  case Nil
  then show ?case by simp
next
  case (Cons a zs)
  from Cons.prems(1) obtain na where na: "heap s a = Some na" "a \<noteq> 0"
    "node_next na = (case zs of [] \<Rightarrow> posn | b # _ \<Rightarrow> b)" "chain (heap s) a zs posn"
    by (auto elim: chain_ConsE)
  have f: "fits (heap s) n a = (node_free na \<noteq> 0 \<and> n \<le> node_size na)"
    using na(1) by (simp add: fits_def is_free_def size_at_def)
  show ?case
  proof (cases zs)
    case Nil
    then show ?thesis using na f Cons.prems(3)
      by (subst next_fit_visits.simps) (simp add: rd_def visited_Cons)
  next
    case (Cons b bs)
    have b0: "b \<noteq> 0" using na(4) Cons by (auto elim: chain_ConsE)
    have bp: "b \<noteq> posn" using Cons.prems(4) Cons by auto
    have "posn \<notin> set (tl zs)" using Cons.prems(4) Cons by auto
    from Cons.IH[OF na(4) _ Cons.prems(3) this, of "seen @ [a]"] Cons
    have ih: "next_fit_visits n posn b (seen @ [a]) s =
       Some (seen @ a # visited (heap s) n zs)" by simp
    show ?thesis using na f b0 bp ih Cons
      by (subst next_fit_visits.simps) (simp add: rd_def visited_Cons)
  qed
qed

lemma next_fit_visits_tail:
  "chain (heap s) pr zs 0 \<Longrightarrow> zs \<noteq> [] \<Longrightarrow> posn \<notin> set (tl zs) \<Longrightarrow>
   next_fit_visits n posn (hd zs) seen s =
     (if \<exists>a \<in> set zs. fits (heap s) n a then Some (seen @ visited (heap s) n zs)
      else if linked_list s \<noteq> posn
           then next_fit_visits n posn (linked_list s) (seen @ zs) s
           else Some (seen @ zs))"
proof (induction zs arbitrary: pr seen)
  case Nil
  then show ?case by simp
next
  case (Cons a zs)
  from Cons.prems(1) obtain na where na: "heap s a = Some na" "a \<noteq> 0"
    "node_next na = (case zs of [] \<Rightarrow> 0 | b # _ \<Rightarrow> b)" "chain (heap s) a zs 0"
    by (auto elim: chain_ConsE)
  have f: "fits (heap s) n a = (node_free na \<noteq> 0 \<and> n \<le> node_size na)"
    using na(1) by (simp add: fits_def is_free_def size_at_def)
  show ?case
  proof (cases zs)
    case Nil
    then show ?thesis using na f
      by (subst next_fit_visits.simps) (simp add: rd_def visited_Cons)
  next
    case (Cons b bs)
    have b0: "b \<noteq> 0" using na(4) Cons by (auto elim: chain_ConsE)
    have bp: "b \<noteq> posn" using Cons.prems(3) Cons by auto
    have "posn \<notin> set (tl zs)" using Cons.prems(3) Cons by auto
    from Cons.IH[OF na(4) _ this, of "seen @ [a]"] Cons
    have ih: "next_fit_visits n posn b (seen @ [a]) s =
     (if \<exists>a \<in> set zs. fits (heap s) n a then Some (seen @ a # visited (heap s) n zs)
      else if linked_list s \<noteq> posn
           then next_fit_visits n posn (linked_list s) (seen @ a # zs) s
           else Some (seen @ a # zs))" by simp
    show ?thesis
    proof (cases "fits (heap s) n a")
      case True
      then show ?thesis using na f
        by (subst next_fit_visits.simps) (simp add: rd_def visited_Cons)
    next
      case False
      then have nf: "\<not> (node_free na \<noteq> 0 \<and> n \<le> node_size na)" using f by simp
      have nx: "node_next na = b" using na(3) Cons by simp
      have v: "visited (heap s) n (a # zs) = a # visited (heap s) n zs"
        using False by (simp add: visited_Cons)
      have step: "next_fit_visits n posn a seen s = next_fit_visits n posn b (seen @ [a]) s"
        using na(1,2) nf nx b0 bp
        by (subst next_fit_visits.simps) (auto simp: rd_def)
      show ?thesis using step ih False v by simp
    qed
  qed
qed

lemma next_fit_visits_order:
  assumes wf: "well_formed s (xs @ c # ys)"
  shows "next_fit_visits n c c [] s = Some (visited (heap s) n (c # ys @ xs))"
proof -
  let ?h = "heap s" and ?e = "linked_list s + unat (heap_size s)"
  from wf have c: "chain ?h 0 (xs @ c # ys) 0" and t: "tiles ?h (xs @ c # ys) ?e"
    and hd: "hd (xs @ c # ys) = linked_list s"
    by (simp_all add: well_formed_def)
  from c t obtain nc where nc: "?h c = Some nc" "c \<noteq> 0"
    "chain ?h 0 xs c"
    and xsb: "\<forall>x \<in> set xs. x < c \<and> x \<noteq> 0"
    and ysb: "\<forall>y \<in> set ys. c + 32 + unat (node_size nc) \<le> y \<and> y < ?e \<and> y \<noteq> 0"
    by (rule list_at)
  have c2: "chain ?h (if xs = [] then 0 else last xs) (c # ys) 0"
    using c by (simp add: chain_append)
  have cy: "c \<notin> set ys" using ysb by fastforce
  have cx: "c \<notin> set xs" using xsb by auto
  have t1: "next_fit_visits n c c [] s =
     (if \<exists>a \<in> set (c # ys). fits ?h n a then Some (visited ?h n (c # ys))
      else if linked_list s \<noteq> c
           then next_fit_visits n c (linked_list s) (c # ys) s
           else Some (c # ys))"
    using next_fit_visits_tail[OF c2, of c n "[]"] cy by simp
  have va: "visited ?h n (c # ys @ xs) =
     (if \<exists>a \<in> set (c # ys). fits ?h n a then visited ?h n (c # ys)
      else (c # ys) @ visited ?h n xs)"
    using visited_append[of ?h n "c # ys" xs] by simp
  show ?thesis
  proof (cases "\<exists>a \<in> set (c # ys). fits ?h n a")
    case True
    then show ?thesis using t1 va by (simp del: set_simps)
  next
    case False
    show ?thesis
    proof (cases xs)
      case Nil
      then have "linked_list s = c" using hd by simp
      with t1 va Nil False show ?thesis by (simp del: set_simps)
    next
      case (Cons x xs')
      then have hx: "linked_list s = hd xs" "linked_list s \<noteq> c" "xs \<noteq> []"
        using hd cx by auto
      have "c \<notin> set (tl xs)" using cx Cons by auto
      from next_fit_visits_seg[OF nc(3) hx(3) nc(2) this, of n "c # ys"] hx
      have t2: "next_fit_visits n c (linked_list s) (c # ys) s =
         Some ((c # ys) @ visited ?h n xs)" by simp
      show ?thesis using t1 va t2 False hx(2) by (simp del: set_simps)
    qed
  qed
qed

subsection \<open>Allocation keeps the invariants\<close>

lemma allocate_node_invariant:
  assumes inv: "invariant s (xs @ a # ys)" and fit: "fits (heap s) n a" and n: "0 < n"
  shows "\<exists>s1 as1. allocate_node a n s = Inr (a, s1) \<and> invariant s1 as1 \<and>
           (as1 = xs @ a # ys \<or> as1 = xs @ a # (memory_of a + unat n) # ys) \<and>
           linked_list s1 = linked_list s \<and> heap_size s1 = heap_size s \<and>
           next_node s1 = next_node s \<and> allocate s1 = allocate s \<and> stderr s1 = stderr s"
proof -
  let ?h = "heap s" and ?q = "memory_of a + unat n"
  from inv have wf: "well_formed s (xs @ a # ys)" and naf: "no_adjacent_free ?h (xs @ a # ys)"
    by (simp_all add: invariant_def)
  from fit have fa: "is_free ?h a" and le: "n \<le> size_at ?h a" by (simp_all add: fits_def)
  from naf fa have bx: "xs \<noteq> [] \<longrightarrow> \<not> is_free ?h (last xs)"
    and by': "ys \<noteq> [] \<longrightarrow> \<not> is_free ?h (hd ys)"
    and nx: "no_adjacent_free ?h xs" and ny: "no_adjacent_free ?h ys"
    using naf_append[of ?h xs "a # ys"] naf_append[of ?h "[a]" ys] by auto
  from allocate_node_wf[OF wf n le] obtain s1 where
    r: "allocate_node a n s = Inr (a, s1)"
    and k: "linked_list s1 = linked_list s" "heap_size s1 = heap_size s"
      "next_node s1 = next_node s" "allocate s1 = allocate s" "stderr s1 = stderr s"
    and nf: "\<not> is_free (heap s1) a"
    and ot: "\<forall>x \<in> set xs \<union> set ys. is_free (heap s1) x = is_free ?h x \<and>
                             size_at (heap s1) x = size_at ?h x"
    and e: "if header_size + MINIMUM_FREE_BLOCK \<le> size_at ?h a - n
     then well_formed s1 (xs @ a # ?q # ys) \<and> size_at (heap s1) a = n \<and>
          is_free (heap s1) ?q \<and>
          size_at (heap s1) ?q = size_at ?h a - n - header_size
     else well_formed s1 (xs @ a # ys) \<and> size_at (heap s1) a = size_at ?h a"
    by blast
  have nx1: "no_adjacent_free (heap s1) xs" using nx ot by (simp add: naf_cong[of xs "heap s1" ?h])
  have ny1: "no_adjacent_free (heap s1) ys" using ny ot by (simp add: naf_cong[of ys "heap s1" ?h])
  have by1: "ys \<noteq> [] \<longrightarrow> \<not> is_free (heap s1) (hd ys)" using by' ot by simp
  have n1: "no_adjacent_free (heap s1) (xs @ a # ys)"
    using nx1 ny1 nf naf_append[of "heap s1" xs "a # ys"] naf_append[of "heap s1" "[a]" ys]
    by auto
  have n2: "no_adjacent_free (heap s1) (xs @ a # ?q # ys)"
    using nx1 ny1 nf by1 naf_append[of "heap s1" xs "a # ?q # ys"]
      naf_append[of "heap s1" "[a, ?q]" ys]
    by auto
  show ?thesis
  proof (cases "header_size + MINIMUM_FREE_BLOCK \<le> size_at ?h a - n")
    case True
    with e have "well_formed s1 (xs @ a # ?q # ys)" by simp
    with n2 r k show ?thesis by (auto simp: invariant_def)
  next
    case False
    with e have "well_formed s1 (xs @ a # ys)" by simp
    with n1 r k show ?thesis by (auto simp: invariant_def)
  qed
qed

lemma wf_next_at:
  assumes "well_formed s as" "a \<in> set as"
  shows "heap s a \<noteq> None \<and> a \<noteq> 0 \<and> (next_at (heap s) a = 0 \<or> next_at (heap s) a \<in> set as)"
proof -
  from assms(2) obtain xs ys where as: "as = xs @ a # ys" by (auto dest: split_list)
  from assms(1) as have c: "chain (heap s) 0 (xs @ a # ys) 0"
    and t: "tiles (heap s) (xs @ a # ys) (linked_list s + unat (heap_size s))"
    by (simp_all add: well_formed_def)
  from c t obtain na where na: "heap s a = Some na" "a \<noteq> 0"
    "node_next na = (case ys of [] \<Rightarrow> 0 | b # _ \<Rightarrow> b)"
    by (rule list_at)
  then show ?thesis using as by (cases ys) (auto simp: next_at_def)
qed

lemma next_fit_take_invariant:
  assumes inv: "invariant s as" and a: "a \<in> set as" and fit: "fits (heap s) n a" and n: "0 < n"
  shows "\<exists>s1 as1. allocate_node a n s = Inr (a, s1) \<and>
           next_fit_take a n s = Inr (memory_of a, s1\<lparr>next_node := next_at (heap s1) a\<rparr>) \<and>
           invariant s1 as1 \<and> invariant (s1\<lparr>next_node := next_at (heap s1) a\<rparr>) as1"
proof -
  from a obtain xs ys where as: "as = xs @ a # ys" by (auto dest: split_list)
  from allocate_node_invariant[OF inv[unfolded as] fit n] obtain s1 as1 where
    r: "allocate_node a n s = Inr (a, s1)" and i1: "invariant s1 as1"
    and l: "as1 = xs @ a # ys \<or> as1 = xs @ a # (memory_of a + unat n) # ys"
    by blast
  from i1 have wf1: "well_formed s1 as1" by (simp add: invariant_def)
  from l have a1: "a \<in> set as1" by auto
  from wf_next_at[OF wf1 a1] obtain na where na: "heap s1 a = Some na" "a \<noteq> 0"
    and nx: "next_at (heap s1) a = 0 \<or> next_at (heap s1) a \<in> set as1" by auto
  have t: "next_fit_take a n s = Inr (memory_of a, s1\<lparr>next_node := next_at (heap s1) a\<rparr>)"
    using r na by (simp add: next_fit_take_def comp_defs next_at_def)
  have "invariant (s1\<lparr>next_node := next_at (heap s1) a\<rparr>) as1"
    using i1 nx by (simp add: invariant_def well_formed_def)
  with r t i1 show ?thesis by blast
qed

lemma take_drop_first:
  "c \<notin> set xs \<Longrightarrow>
   takeWhile (\<lambda>a. a \<noteq> c) (xs @ c # ys) = xs \<and>
   dropWhile (\<lambda>a. a \<noteq> c) (xs @ c # ys) = c # ys"
  by (induction xs) auto

lemma search_order_split:
  assumes wf: "well_formed s as"
  shows "\<exists>xs ys. as = xs @ next_fit_start s # ys \<and>
           search_order s as = next_fit_start s # ys @ xs \<and> next_fit_start s \<notin> set xs"
proof -
  let ?c = "next_fit_start s"
  from wf have ne: "as \<noteq> []" and hd: "hd as = linked_list s"
    and cur: "next_node s = 0 \<or> next_node s \<in> set as"
    by (simp_all add: well_formed_def)
  have "linked_list s \<in> set as" using ne hd hd_in_set[of as] by simp
  then have cin: "?c \<in> set as" using cur by (auto simp: next_fit_start_def)
  then obtain xs ys where as: "as = xs @ ?c # ys" "?c \<notin> set xs"
    by (auto dest: split_list_first)
  have "takeWhile (\<lambda>a. a \<noteq> ?c) as = xs" "dropWhile (\<lambda>a. a \<noteq> ?c) as = ?c # ys"
    using take_drop_first[OF as(2), of ys] as(1) by simp_all
  then have "search_order s as = ?c # ys @ xs"
    by (simp add: search_order_def next_fit_start_def Let_def)
  with as show ?thesis by blast
qed

subsection \<open>Next-fit and first-fit\<close>

lemma wf_head:
  assumes "well_formed s as"
  shows "linked_list s \<noteq> 0 \<and> (case as of [] \<Rightarrow> 0 | a # _ \<Rightarrow> a) = linked_list s \<and>
         linked_list s \<in> set as"
proof -
  from assms have c: "chain (heap s) 0 as 0" and ne: "as \<noteq> []" and hd: "hd as = linked_list s"
    by (simp_all add: well_formed_def)
  have i: "linked_list s \<in> set as" using ne hd hd_in_set[of as] by simp
  then have "linked_list s \<noteq> 0" using chain_nonzero[OF c] by (cases "linked_list s = 0") auto
  moreover have "(case as of [] \<Rightarrow> 0 | a # _ \<Rightarrow> a) = linked_list s"
    using ne hd by (cases as) auto
  ultimately show ?thesis using i by simp
qed

lemma find_fits_in:
  "find (fits h n) as = Some r \<Longrightarrow> r \<in> set as \<and> fits h n r"
  by (induction as) (auto split: if_splits)

lemma next_fit_result:
  assumes inv: "invariant s as" and n: "0 < n"
  shows "\<exists>xs ys vs. as = xs @ ys \<and> search_order s as = ys @ xs \<and>
           hd (search_order s as) = next_fit_start s \<and>
           next_fit_visits n (next_fit_start s) (next_fit_start s) [] s = Some vs \<and>
           vs = visited (heap s) n (search_order s as) \<and> distinct vs \<and> set vs \<subseteq> set as \<and>
           (case find (fits (heap s) n) (search_order s as) of
              None \<Rightarrow> allocate_next_fit n s = Some (Inr (0, s))
            | Some r \<Rightarrow>
                \<exists>s1. allocate_node r n s = Inr (r, s1) \<and>
                  allocate_next_fit n s =
                    Some (Inr (memory_of r, s1\<lparr>next_node := next_at (heap s1) r\<rparr>)))"
proof -
  let ?c = "next_fit_start s" and ?h = "heap s"
  from inv have wf: "well_formed s as" by (simp add: invariant_def)
  from search_order_split[OF wf] obtain xs ys where
    as: "as = xs @ ?c # ys" and so: "search_order s as = ?c # ys @ xs" by blast
  have wf': "well_formed s (xs @ ?c # ys)" using wf as by simp
  have c0: "?c \<noteq> 0" using wf_next_at[OF wf, of ?c] as by simp
  have dist: "distinct (search_order s as)"
  proof -
    have "distinct as" using wf_sorted[OF wf] by (simp add: strict_sorted_iff)
    then show ?thesis using as so by auto
  qed
  obtain rest where rest: "search_order s as = visited ?h n (search_order s as) @ rest"
    using visited_prefix[of "search_order s as" ?h n] by blast
  have dv: "distinct (visited ?h n (search_order s as))"
    using dist rest by (metis distinct_append)
  have sv: "set (visited ?h n (search_order s as)) \<subseteq> set as"
  proof -
    have "set (visited ?h n (search_order s as)) \<subseteq> set (search_order s as)"
      using rest by (metis Un_upper1 set_append)
    then show ?thesis using as so by auto
  qed
  have vis: "next_fit_visits n ?c ?c [] s = Some (visited ?h n (search_order s as))"
    using next_fit_visits_order[OF wf', of n] so by simp
  have loop: "next_fit_loop n ?c ?c s =
     Some (case find (fits ?h n) (search_order s as) of
             None \<Rightarrow> Inr (0, s) | Some a \<Rightarrow> next_fit_take a n s)"
    using next_fit_loop_order[OF wf', of n] so by simp
  have res: "allocate_next_fit n s = next_fit_loop n ?c ?c s"
    using n c0 by (simp add: allocate_next_fit_def next_fit_start_def Let_def)
  have fin: "case find (fits ?h n) (search_order s as) of
              None \<Rightarrow> allocate_next_fit n s = Some (Inr (0, s))
            | Some r \<Rightarrow>
                \<exists>s1. allocate_node r n s = Inr (r, s1) \<and>
                  allocate_next_fit n s =
                    Some (Inr (memory_of r, s1\<lparr>next_node := next_at (heap s1) r\<rparr>))"
  proof (cases "find (fits ?h n) (search_order s as)")
    case None
    then show ?thesis using res loop by simp
  next
    case (Some r)
    from find_fits_in[OF Some] have "r \<in> set as" "fits ?h n r" using as so by auto
    from next_fit_take_invariant[OF inv this n] obtain s1 where
      "allocate_node r n s = Inr (r, s1)"
      "next_fit_take r n s = Inr (memory_of r, s1\<lparr>next_node := next_at (heap s1) r\<rparr>)"
      by blast
    then show ?thesis using res loop Some by auto
  qed
  have "as = xs @ (?c # ys) \<and> search_order s as = (?c # ys) @ xs" using as so by simp
  moreover have "hd (search_order s as) = ?c" using so by simp
  ultimately show ?thesis using vis dv sv fin by blast
qed

lemma first_fit_result:
  assumes inv: "invariant s as" and n: "0 < n"
  shows "allocate_first_fit n s =
     Some (case find (fits (heap s) n) as of
             None \<Rightarrow> Inr (0, s)
           | Some a \<Rightarrow> bnd (allocate_node a n) (\<lambda>_. ret (memory_of a)) s)"
proof -
  from inv have wf: "well_formed s as" by (simp add: invariant_def)
  then have c: "chain (heap s) 0 as 0" by (simp add: well_formed_def)
  from first_fit_loop_chain[OF c, of n] wf_head[OF wf] n
  show ?thesis by (simp add: allocate_first_fit_def)
qed

lemma next_fit_unset_result:
  assumes inv: "invariant s as" and n: "0 < n" and unset: "next_node s = 0"
  shows "\<exists>p s1. allocate_first_fit n s = Some (Inr (p, s1)) \<and>
           allocate_next_fit n s =
             Some (Inr (p, if p = 0 then s1
                           else s1\<lparr>next_node := next_at (heap s1) (p - unat header_size)\<rparr>)) \<and>
           (p = 0 \<longrightarrow> s1 = s)"
proof -
  let ?h = "heap s"
  from inv have wf: "well_formed s as" by (simp add: invariant_def)
  have st: "next_fit_start s = linked_list s" using unset by (simp add: next_fit_start_def)
  from search_order_split[OF wf] obtain xs ys where
    as: "as = xs @ next_fit_start s # ys" and so: "search_order s as = next_fit_start s # ys @ xs"
    and nx: "next_fit_start s \<notin> set xs" by blast
  have "hd as = linked_list s" using wf by (simp add: well_formed_def)
  then have "xs = []" using as nx st by (cases xs) auto
  then have so': "search_order s as = as" using as so by simp
  from next_fit_result[OF inv n] have nf:
    "case find (fits ?h n) as of
       None \<Rightarrow> allocate_next_fit n s = Some (Inr (0, s))
     | Some r \<Rightarrow> \<exists>s1. allocate_node r n s = Inr (r, s1) \<and>
          allocate_next_fit n s =
            Some (Inr (memory_of r, s1\<lparr>next_node := next_at (heap s1) r\<rparr>))"
    unfolding so' by blast
  note ff = first_fit_result[OF inv n]
  show ?thesis
  proof (cases "find (fits ?h n) as")
    case None
    with nf ff show ?thesis by simp
  next
    case (Some r)
    with nf obtain s1 where s1: "allocate_node r n s = Inr (r, s1)"
      "allocate_next_fit n s = Some (Inr (memory_of r, s1\<lparr>next_node := next_at (heap s1) r\<rparr>))"
      by auto
    have "allocate_first_fit n s = Some (Inr (memory_of r, s1))"
      using ff Some s1(1) by (simp add: bnd_def ret_def)
    moreover have "memory_of r \<noteq> 0" by (simp add: memory_of_def header_size_def)
    ultimately show ?thesis using s1(2) by simp
  qed
qed

subsection \<open>Runs of the engine\<close>

lemma initialise_invariant:
  assumes "initialise memory sz algo s0 = Inr ((), s)"
  shows "invariant s [memory] \<and> allocate s \<noteq> Unset \<and> heap_size s = sz \<and>
         linked_list s = memory \<and> next_node s = 0 \<and>
         is_free (heap s) memory \<and> size_at (heap s) memory = sz - header_size"
proof -
  have m: "memory \<noteq> 0" and z: "MINIMUM_HEAP_SIZE < sz"
    using assms by (auto simp: initialise_def comp_defs split: if_splits)
  have hz: "header_size < sz" "header_size \<le> sz"
    using z by (simp_all add: MINIMUM_HEAP_SIZE_def header_size_def) unat_arith+
  let ?n = "\<lparr>node_next = 0, node_prev = 0, node_free = 1, node_size = sz - header_size\<rparr>"
  have hp: "heap s = (heap s0)(memory \<mapsto> ?n)" and rest: "heap_size s = sz"
    "linked_list s = memory" "next_node s = 0" "allocate s \<noteq> Unset"
    using assms m z hz
    by (auto simp: initialise_def create_node_def comp_defs split: if_splits)
  have u: "unat (sz - header_size) = unat sz - 32" "32 \<le> unat sz"
    using hz(2) by (simp_all add: unat_sub header_size_def word_le_nat_alt)
  have pos: "0 < sz - header_size" using hz(1) by unat_arith
  have "chain (heap s) 0 [memory] 0" using m hp by (simp add: chain_Cons)
  moreover have "tiles (heap s) [memory] (linked_list s + unat (heap_size s))"
    using hp rest pos u by (simp add: tiles_Cons header_size_def)
  ultimately have "invariant s [memory]"
    using rest by (simp add: invariant_def well_formed_def)
  then show ?thesis using rest hp by (simp add: is_free_def size_at_def)
qed

lemma wf_region:
  assumes "well_formed s as" "a \<in> set as"
  shows "linked_list s \<le> a \<and> 0 < size_at (heap s) a \<and>
         a + 32 + unat (size_at (heap s) a) \<le> linked_list s + unat (heap_size s)"
proof -
  let ?e = "linked_list s + unat (heap_size s)"
  from assms(2) obtain xs ys where as: "as = xs @ a # ys" by (auto dest: split_list)
  from assms(1) as have c: "chain (heap s) 0 (xs @ a # ys) 0"
    and t: "tiles (heap s) (xs @ a # ys) ?e"
    and hd: "hd (xs @ a # ys) = linked_list s"
    by (simp_all add: well_formed_def)
  from c t obtain na where na: "heap s a = Some na" "0 < node_size na"
    "a + 32 + unat (node_size na) = (case ys of [] \<Rightarrow> ?e | b # _ \<Rightarrow> b)"
    and ys: "\<forall>y \<in> set ys. a + 32 + unat (node_size na) \<le> y \<and> y < ?e \<and> y \<noteq> 0"
    by (rule list_at)
  have "a + 32 + unat (node_size na) \<le> ?e" using na(3) ys by (cases ys) auto
  moreover have "linked_list s \<le> a" using tiles_bounds[OF t, of a] hd by simp
  ultimately show ?thesis using na(1,2) by (simp add: size_at_def)
qed

lemma wf_unique: "well_formed s as \<Longrightarrow> block_list s = Some as' \<Longrightarrow> as' = as"
  using block_list_wf[of s as] by simp

lemma call_allocate_invariant:
  assumes inv: "invariant s as" and n: "0 < n" and al: "allocate s \<noteq> Unset"
  shows "\<exists>p s' as'. call_allocate n s = Some (Inr (p, s')) \<and> invariant s' as' \<and>
           allocate s' = allocate s"
proof -
  let ?h = "heap s"
  have node: "\<exists>s1 as1. allocate_node r n s = Inr (r, s1) \<and> invariant s1 as1 \<and>
                allocate s1 = allocate s" if "r \<in> set as" "fits ?h n r" for r
  proof -
    from that(1) obtain xs ys where as: "as = xs @ r # ys" by (auto dest: split_list)
    from allocate_node_invariant[OF inv[unfolded as] that(2) n] show ?thesis by blast
  qed
  show ?thesis
  proof (cases "allocate s")
    case Unset
    with al show ?thesis by simp
  next
    case First_Fit
    note ff = first_fit_result[OF inv n]
    show ?thesis
    proof (cases "find (fits ?h n) as")
      case None
      with ff First_Fit inv show ?thesis by (auto simp: call_allocate_def)
    next
      case (Some r)
      from find_fits_in[OF Some] node obtain s1 as1 where
        "allocate_node r n s = Inr (r, s1)" "invariant s1 as1" "allocate s1 = allocate s"
        by blast
      with ff Some First_Fit show ?thesis
        by (auto simp: call_allocate_def bnd_def ret_def)
    qed
  next
    case Next_Fit
    from inv have wf: "well_formed s as" by (simp add: invariant_def)
    from next_fit_result[OF inv n] have nf:
      "case find (fits ?h n) (search_order s as) of
         None \<Rightarrow> allocate_next_fit n s = Some (Inr (0, s))
       | Some r \<Rightarrow> \<exists>s1. allocate_node r n s = Inr (r, s1) \<and>
            allocate_next_fit n s =
              Some (Inr (memory_of r, s1\<lparr>next_node := next_at (heap s1) r\<rparr>))"
      by blast
    show ?thesis
    proof (cases "find (fits ?h n) (search_order s as)")
      case None
      with nf Next_Fit inv show ?thesis by (auto simp: call_allocate_def)
    next
      case (Some r)
      from search_order_split[OF wf] have "set (search_order s as) = set as" by auto
      with find_fits_in[OF Some] have r: "r \<in> set as" "fits ?h n r" by auto
      from next_fit_take_invariant[OF inv r n] obtain s1 as1 where
        s1: "allocate_node r n s = Inr (r, s1)"
        "invariant (s1\<lparr>next_node := next_at (heap s1) r\<rparr>) as1" by blast
      from node[OF r] s1(1) have "allocate s1 = allocate s" by auto
      with nf Some s1 Next_Fit show ?thesis
        by (auto simp: call_allocate_def)
    qed
  next
    case Best_Fit
    note bf = best_fit_result[OF inv n]
    show ?thesis
    proof (cases "\<exists>b \<in> set as. fits ?h n b")
      case True
      with bf obtain r s' where r: "allocate_best_fit n s = Some (Inr (memory_of r, s'))"
        "allocate_node r n s = Inr (r, s')" "r \<in> set as" "fits ?h n r" by auto
      from node[OF r(3,4)] r(2) obtain as1 where "invariant s' as1" "allocate s' = allocate s"
        by auto
      with r(1) Best_Fit show ?thesis by (auto simp: call_allocate_def)
    next
      case False
      with bf Best_Fit inv show ?thesis by (auto simp: call_allocate_def)
    qed
  next
    case Worst_Fit
    note wf = worst_fit_result[OF inv n, THEN conjunct2]
    show ?thesis
    proof (cases "\<exists>b \<in> set as. fits ?h n b")
      case True
      with wf obtain r s' where r: "allocate_worst_fit n s = Some (Inr (memory_of r, s'))"
        "allocate_node r n s = Inr (r, s')" "r \<in> set as" "fits ?h n r" by auto
      from node[OF r(3,4)] r(2) obtain as1 where "invariant s' as1" "allocate s' = allocate s"
        by auto
      with r(1) Worst_Fit show ?thesis by (auto simp: call_allocate_def)
    next
      case False
      with wf Worst_Fit inv show ?thesis by (auto simp: call_allocate_def)
    qed
  qed
qed

lemma deallocate_invariant:
  assumes inv: "invariant s as" and m: "m = 0 \<or> on_list s m"
  shows "\<exists>s' as'. deallocate m s = Inr ((), s') \<and> invariant s' as' \<and>
           allocate s' = allocate s"
proof -
  from inv have wf: "well_formed s as" by (simp add: invariant_def)
  note hd = wf_head[OF wf]
  show ?thesis
  proof (cases "m = 0")
    case True
    with hd inv show ?thesis by (auto simp: deallocate_def comp_defs)
  next
    case False
    with m block_list_wf[OF wf] obtain a where a: "a \<in> set as" "m = memory_of a"
      by (auto simp: on_list_def)
    then obtain xs ys where as: "as = xs @ a # ys" by (auto dest: split_list)
    show ?thesis
    proof (cases "is_free (heap s) a")
      case True
      have a0: "a \<noteq> 0" using wf_next_at[OF wf a(1)] by simp
      from wf_region[OF wf a(1)]
      have lo: "linked_list s \<le> a" and hi: "memory_of a < linked_list s + unat (heap_size s)"
        by (simp_all add: memory_of_def header_size_def word_less_nat_alt)
      have lo': "linked_list s \<le> memory_of a" using lo by (simp add: memory_of_def)
      from double_release_result[OF _ a0 True lo' hi] hd
      have "deallocate m s =
              Inr ((), s\<lparr>stderr := stderr s @ [''Error : memory already free'' @ [CHR 0x0A]]\<rparr>)"
        using a(2) by simp
      moreover have "invariant (s\<lparr>stderr := stderr s @ [''Error : memory already free'' @ [CHR 0x0A]]\<rparr>) as"
        using inv by (simp add: invariant_def well_formed_def)
      ultimately show ?thesis by auto
    next
      case False
      from deallocate_wf[OF inv[unfolded as] False refl refl refl refl refl] a(2)
      show ?thesis by blast
    qed
  qed
qed

lemma run_invariant:
  "invariant s as \<Longrightarrow> allocate s \<noteq> Unset \<Longrightarrow> within_contract ops s \<Longrightarrow>
   \<exists>s' as'. run ops s = Some (Inr s') \<and> invariant s' as'"
proof (induction ops arbitrary: s as)
  case Nil
  then show ?case by auto
next
  case (Cons op ops)
  show ?case
  proof (cases op)
    case (Allocate n)
    with Cons.prems(3) have n: "0 < n" by simp
    from call_allocate_invariant[OF Cons.prems(1) n Cons.prems(2)] obtain p s1 as1 where
      s1: "call_allocate n s = Some (Inr (p, s1))" "invariant s1 as1" "allocate s1 = allocate s"
      by blast
    have "within_contract ops s1" using Cons.prems(3) Allocate s1(1) by simp
    from Cons.IH[OF s1(2) _ this] s1(3) Cons.prems(2) s1(1) Allocate
    show ?thesis by simp
  next
    case (Deallocate m)
    with Cons.prems(3) have m: "m = 0 \<or> on_list s m" by simp
    from deallocate_invariant[OF Cons.prems(1) m] obtain s1 as1 where
      s1: "deallocate m s = Inr ((), s1)" "invariant s1 as1" "allocate s1 = allocate s"
      by blast
    have "within_contract ops s1" using Cons.prems(3) Deallocate s1(1) by simp
    from Cons.IH[OF s1(2) _ this] s1(3) Cons.prems(2) s1(1) Deallocate
    show ?thesis by simp
  qed
qed

subsection \<open>validate\<close>

lemma list_from_Nil: "list_from h p = Some [] \<Longrightarrow> p = 0"
  by (subst (asm) list_from.simps) (auto split: if_splits option.splits simp: bind_eq_Some_conv)

lemma list_from_Cons:
  "list_from h p = Some (a # as) \<Longrightarrow>
   p = a \<and> a \<noteq> 0 \<and> (\<exists>n. h a = Some n \<and> list_from h (node_next n) = Some as)"
  by (subst (asm) list_from.simps) (auto split: if_splits option.splits simp: bind_eq_Some_conv)

lemma validate_node_result:
  assumes "heap s a = Some n" "a \<noteq> 0"
  shows "if node_valid (heap s) a then validate_node a s = Inr ((), s)
         else \<exists>e. validate_node a s = Inl e"
  using assms
  by (auto simp: node_valid_def validate_node_def comp_defs split: option.splits)

lemma node_valid_all:
  "(doubly_linked h as \<and> sizes_positive h as) = (\<forall>a \<in> set as. node_valid h a)"
  by (auto simp: doubly_linked_def sizes_positive_def node_valid_def list_all_iff size_at_def
      split: option.splits)

lemma validate_loop_result:
  "list_from (heap s) p = Some as \<Longrightarrow>
   (if (\<forall>a \<in> set as. node_valid (heap s) a) \<and> c + counter_of (heap s) as = heap_size s
    then validate_loop p c s = Some (Inr ((), s))
    else \<exists>e. validate_loop p c s = Some (Inl e))"
proof (induction as arbitrary: p c)
  case Nil
  then have "p = 0" by (rule list_from_Nil)
  then have "validate_loop p c s = Some (assert_c (c = heap_size s) s)"
    by (subst validate_loop.simps) simp
  then show ?case
    by (cases "c = heap_size s") (simp_all add: counter_of_def assert_c_def ret_def fail_def)
next
  case (Cons a as)
  from list_from_Cons[OF Cons.prems] obtain n where n: "p = a" "a \<noteq> 0" "heap s a = Some n"
    "list_from (heap s) (node_next n) = Some as" by blast
  note ih = Cons.IH[OF n(4), of "c + (node_size n + header_size)"]
  have ce: "c + counter_of (heap s) (a # as) =
            c + (node_size n + header_size) + counter_of (heap s) as"
    using n(3) by (simp add: counter_of_def size_at_def add.assoc)
  show ?case
  proof (cases "node_valid (heap s) a")
    case True
    with validate_node_result[OF n(3) n(2)] have v: "validate_node a s = Inr ((), s)" by simp
    have step: "validate_loop p c s =
                validate_loop (node_next n) (c + (node_size n + header_size)) s"
      using n(1,2,3) v by (subst validate_loop.simps) (simp add: comp_defs)
    show ?thesis unfolding step ce using ih True by simp
  next
    case False
    with validate_node_result[OF n(3) n(2)] obtain e where v: "validate_node a s = Inl e"
      by auto
    have "validate_loop p c s = Some (Inl e)"
      using n(1,2) v by (subst validate_loop.simps) simp
    with False show ?thesis by simp
  qed
qed

lemma validate_result:
  assumes "block_list s = Some as"
  shows "if doubly_linked (heap s) as \<and> sizes_positive (heap s) as \<and>
            counter_of (heap s) as = heap_size s
         then validate s = Some (Inr ((), s))
         else \<exists>e. validate s = Some (Inl e)"
  using validate_loop_result[OF assms[unfolded block_list_def], of 0]
  by (simp add: validate_def node_valid_all[symmetric])

lemma unmerged_validate:
  "block_list unmerged = Some [1000, 1132] \<and>
   \<not> no_adjacent_free (heap unmerged) [1000, 1132] \<and>
   next_node unmerged \<noteq> 0 \<and> next_node unmerged \<notin> set [1000, 1132] \<and>
   validate unmerged = Some (Inr ((), unmerged))"
proof -
  have bl: "block_list unmerged = Some [1000, 1132]"
    by (simp add: block_list_def unmerged_def list_from.simps)
  have "validate unmerged = Some (Inr ((), unmerged))"
    using validate_result[OF bl]
    by (simp add: unmerged_def doubly_linked_def sizes_positive_def counter_of_def size_at_def
        header_size_def)
  with bl show ?thesis by (simp add: unmerged_def is_free_def)
qed

subsection \<open>The split\<close>

lemma wf_links:
  assumes wf: "well_formed s (xs @ a # ys)"
  shows "a \<noteq> 0 \<and> heap s a \<noteq> None \<and>
         prev_at (heap s) a = (if xs = [] then 0 else last xs) \<and>
         next_at (heap s) a = (case ys of [] \<Rightarrow> 0 | b # _ \<Rightarrow> b) \<and>
         (\<forall>x \<in> set xs. x \<noteq> 0) \<and> (\<forall>y \<in> set ys. y \<noteq> 0) \<and>
         a \<notin> set xs \<and> a \<notin> set ys"
proof -
  from wf have c: "chain (heap s) 0 (xs @ a # ys) 0"
    and t: "tiles (heap s) (xs @ a # ys) (linked_list s + unat (heap_size s))"
    by (simp_all add: well_formed_def)
  from c t obtain na where na: "heap s a = Some na" "a \<noteq> 0"
    "node_prev na = (if xs = [] then 0 else last xs)"
    "node_next na = (case ys of [] \<Rightarrow> 0 | b # _ \<Rightarrow> b)"
    and xs: "\<forall>x \<in> set xs. x < a \<and> x \<noteq> 0"
    and ys: "\<forall>y \<in> set ys. a + 32 + unat (node_size na) \<le> y \<and>
                y < linked_list s + unat (heap_size s) \<and> y \<noteq> 0"
    by (rule list_at)
  have "a \<notin> set xs" using xs by auto
  moreover have "a \<notin> set ys" using ys by fastforce
  ultimately show ?thesis using na xs ys by (simp add: prev_at_def next_at_def)
qed

lemma split_result:
  assumes inv: "invariant s as" and a: "a \<in> set as" and fit: "fits (heap s) n a"
    and n: "0 < n"
  shows "\<exists>s'. allocate_node a n s = Inr (a, s') \<and> \<not> is_free (heap s') a \<and>
     (\<forall>i < unat (size_at (heap s') a). bytes s' (memory_of a + i) = 0) \<and>
     prev_at (heap s') a = prev_at (heap s) a \<and>
     (if header_size + MINIMUM_FREE_BLOCK \<le> size_at (heap s) a - n
      then size_at (heap s') a = n \<and>
           (\<exists>xs ys. as = xs @ a # ys \<and>
                    block_list s' = Some (xs @ a # (memory_of a + unat n) # ys)) \<and>
           is_free (heap s') (memory_of a + unat n) \<and>
           size_at (heap s') (memory_of a + unat n) = size_at (heap s) a - n - header_size \<and>
           next_at (heap s') a = memory_of a + unat n \<and>
           prev_at (heap s') (memory_of a + unat n) = a \<and>
           next_at (heap s') (memory_of a + unat n) = next_at (heap s) a \<and>
           (next_at (heap s) a \<noteq> 0 \<longrightarrow>
              prev_at (heap s') (next_at (heap s) a) = memory_of a + unat n)
      else size_at (heap s') a = size_at (heap s) a \<and> block_list s' = Some as \<and>
           next_at (heap s') a = next_at (heap s) a)"
proof -
  let ?h = "heap s" and ?q = "memory_of a + unat n"
  from inv have wf: "well_formed s as" by (simp add: invariant_def)
  from a obtain xs ys where as: "as = xs @ a # ys" by (auto dest: split_list)
  from fit have le: "n \<le> size_at ?h a" by (simp add: fits_def)
  note l0 = wf_links[OF wf[unfolded as]]
  from allocate_node_wf[OF wf[unfolded as] n le] obtain s' where
    r: "allocate_node a n s = Inr (a, s')"
    and nf: "\<not> is_free (heap s') a"
    and zr: "\<forall>i < unat (size_at (heap s') a). bytes s' (memory_of a + i) = 0"
    and e: "if header_size + MINIMUM_FREE_BLOCK \<le> size_at ?h a - n
     then well_formed s' (xs @ a # ?q # ys) \<and> size_at (heap s') a = n \<and>
          is_free (heap s') ?q \<and>
          size_at (heap s') ?q = size_at ?h a - n - header_size
     else well_formed s' (xs @ a # ys) \<and> size_at (heap s') a = size_at ?h a"
    by blast
  show ?thesis
  proof (cases "header_size + MINIMUM_FREE_BLOCK \<le> size_at ?h a - n")
    case True
    with e have wf': "well_formed s' (xs @ a # ?q # ys)" and sa: "size_at (heap s') a = n"
      and fq: "is_free (heap s') ?q"
      and sq: "size_at (heap s') ?q = size_at ?h a - n - header_size" by simp_all
    note l1 = wf_links[OF wf']
    have wf'': "well_formed s' ((xs @ [a]) @ ?q # ys)" using wf' by simp
    note l2 = wf_links[OF wf'']
    have nb: "prev_at (heap s') (next_at ?h a) = ?q" if "next_at ?h a \<noteq> 0"
    proof (cases ys)
      case Nil
      with l0 that show ?thesis by simp
    next
      case (Cons b bs)
      have "well_formed s' ((xs @ [a, ?q]) @ b # bs)" using wf' Cons by simp
      from wf_links[OF this] l0 Cons show ?thesis by simp
    qed
    have bl: "block_list s' = Some (xs @ a # ?q # ys)" by (rule block_list_wf[OF wf'])
    show ?thesis
      using r nf zr True sa fq sq l0 l1 l2 nb bl as
      by (intro exI[of _ s']) auto
  next
    case False
    with e have wf': "well_formed s' (xs @ a # ys)"
      and sa: "size_at (heap s') a = size_at ?h a" by simp_all
    note l1 = wf_links[OF wf']
    have bl: "block_list s' = Some as" using block_list_wf[OF wf'] as by simp
    show ?thesis
      using r nf zr False sa l0 l1 bl
      by (intro exI[of _ s']) auto
  qed
qed

subsection \<open>The release\<close>

lemma release_result:
  assumes inv: "invariant s as" and a: "a \<in> set as" and busy: "\<not> is_free (heap s) a"
  shows "\<exists>s' xs ys as' r.
     as = xs @ a # ys \<and> deallocate (memory_of a) s = Inr ((), s') \<and>
     (prev_free (heap s) a \<longrightarrow> xs \<noteq> [] \<and> last xs = prev_at (heap s) a) \<and>
     (next_free (heap s) a \<longrightarrow> ys \<noteq> [] \<and> hd ys = next_at (heap s) a) \<and>
     r = (if prev_free (heap s) a then prev_at (heap s) a else a) \<and>
     as' = (if prev_free (heap s) a then butlast xs else xs) @ r #
           (if next_free (heap s) a then tl ys else ys) \<and>
     invariant s' as' \<and>
     is_free (heap s') r \<and>
     size_at (heap s') r =
       (if next_free (heap s) a
        then (if prev_free (heap s) a
              then size_at (heap s) (prev_at (heap s) a) + (header_size + size_at (heap s) a)
              else size_at (heap s) a) +
             (header_size + size_at (heap s) (next_at (heap s) a))
        else (if prev_free (heap s) a
              then size_at (heap s) (prev_at (heap s) a) + (header_size + size_at (heap s) a)
              else size_at (heap s) a)) \<and>
     length as' + (if prev_free (heap s) a then 1 else 0) +
       (if next_free (heap s) a then 1 else 0) = length as \<and>
     (\<forall>x \<in> set as'. x \<noteq> r \<longrightarrow> is_free (heap s') x = is_free (heap s) x \<and>
                                 size_at (heap s') x = size_at (heap s) x) \<and>
     next_node s' = cursor_merge_next s a (cursor_merge_prev s a) \<and>
     linked_list s' = linked_list s \<and> heap_size s' = heap_size s \<and> bytes s' = bytes s \<and>
     allocate s' = allocate s \<and> stderr s' = stderr s"
proof -
  let ?h = "heap s"
  from inv have wf: "well_formed s as" by (simp add: invariant_def)
  from a obtain xs ys where as: "as = xs @ a # ys" by (auto dest: split_list)
  note l = wf_links[OF wf[unfolded as]]
  let ?P = "xs \<noteq> [] \<and> is_free ?h (last xs)"
  let ?N = "ys \<noteq> [] \<and> is_free ?h (hd ys)"
  have pf: "prev_free ?h a = ?P"
    using l by (auto simp: prev_free_def)
  have nf: "next_free ?h a = ?N"
    using l by (cases ys) (auto simp: next_free_def)
  have pa: "?P \<Longrightarrow> last xs = prev_at ?h a" using l by simp
  have na: "?N \<Longrightarrow> hd ys = next_at ?h a" using l by (cases ys) auto
  have nna: "?N \<Longrightarrow> next_at ?h (hd ys) = (case tl ys of [] \<Rightarrow> 0 | c # _ \<Rightarrow> c)"
  proof -
    assume N: ?N
    then obtain b bs where ys: "ys = b # bs" by (cases ys) auto
    have "well_formed s ((xs @ [a]) @ b # bs)" using wf as ys by simp
    from wf_links[OF this] ys show ?thesis by simp
  qed
  define xs' where "xs' = (if ?P then butlast xs else xs)"
  define ys' where "ys' = (if ?N then tl ys else ys)"
  define r where "r = (if ?P then last xs else a)"
  define c1 where "c1 = (if xs \<noteq> [] \<and> is_free ?h (last xs) \<and> next_node s = a
                   then (case ys of [] \<Rightarrow> 0 | b # _ \<Rightarrow> b) else next_node s)"
  define z1 where "z1 = (if ?P then size_at ?h (last xs) + (header_size + size_at ?h a)
                         else size_at ?h a)"
  from deallocate_wf[OF inv[unfolded as] busy xs'_def ys'_def r_def c1_def z1_def]
  obtain s' where
    res: "deallocate (memory_of a) s = Inr ((), s')"
    and k: "linked_list s' = linked_list s" "heap_size s' = heap_size s" "bytes s' = bytes s"
      "allocate s' = allocate s" "stderr s' = stderr s"
    and inv': "invariant s' (xs' @ r # ys')"
    and fr: "is_free (heap s') r"
    and sz: "size_at (heap s') r = (if ?N then z1 + (header_size + size_at ?h (hd ys)) else z1)"
    and cu: "next_node s' = (if ys \<noteq> [] \<and> is_free ?h (hd ys) \<and> c1 = hd ys
                     then (case tl ys of [] \<Rightarrow> 0 | c # _ \<Rightarrow> c) else c1)"
    and ot: "\<forall>x \<in> set xs' \<union> set ys'. is_free (heap s') x = is_free ?h x \<and>
                                size_at (heap s') x = size_at ?h x"
    by (elim exE conjE) (rule that; assumption)
  have r': "r = (if prev_free ?h a then prev_at ?h a else a)"
    using pf pa by (auto simp: r_def)
  have as': "xs' @ r # ys' = (if prev_free ?h a then butlast xs else xs) @ r #
           (if next_free ?h a then tl ys else ys)"
    using pf nf by (simp add: xs'_def ys'_def)
  have z1': "z1 = (if prev_free ?h a
              then size_at ?h (prev_at ?h a) + (header_size + size_at ?h a)
              else size_at ?h a)"
    using pf pa by (auto simp: z1_def)
  have sz': "size_at (heap s') r =
       (if next_free ?h a then z1 + (header_size + size_at ?h (next_at ?h a)) else z1)"
    using sz nf na by auto
  have c1': "c1 = cursor_merge_prev s a"
    using pf l by (auto simp: c1_def cursor_merge_prev_def)
  have cu': "next_node s' = cursor_merge_next s a (cursor_merge_prev s a)"
    using cu nf na nna c1' by (auto simp: cursor_merge_next_def)
  have len: "length (xs' @ r # ys') + (if prev_free ?h a then 1 else 0) +
       (if next_free ?h a then 1 else 0) = length as"
  proof -
    have "length xs' + (if ?P then 1 else 0) = length xs"
      by (cases xs rule: rev_cases) (auto simp: xs'_def)
    moreover have "length ys' + (if ?N then 1 else 0) = length ys"
      by (cases ys) (auto simp: ys'_def)
    ultimately show ?thesis using as pf nf by auto
  qed
  have ot': "\<forall>x \<in> set (xs' @ r # ys'). x \<noteq> r \<longrightarrow>
      is_free (heap s') x = is_free ?h x \<and> size_at (heap s') x = size_at ?h x"
    using ot by auto
  have p1: "prev_free ?h a \<longrightarrow> xs \<noteq> [] \<and> last xs = prev_at ?h a" using pf pa by auto
  have n1: "next_free ?h a \<longrightarrow> ys \<noteq> [] \<and> hd ys = next_at ?h a" using nf na by auto
  show ?thesis
    apply (rule exI[of _ s'], rule exI[of _ xs], rule exI[of _ ys],
           rule exI[of _ "xs' @ r # ys'"], rule exI[of _ r])
    apply (intro conjI)
    using as res p1 n1 r' as' inv' fr sz'[unfolded z1'] len ot' cu' k
    by simp_all
qed

lemmas eval_defs = comp_defs initialise_def create_node_def allocate_node_def merge_prev_def
  merge_next_def deallocate_def call_allocate_def allocate_first_fit_def allocate_next_fit_def
  allocate_best_fit_def allocate_worst_fit_def on_list_def block_list_def memory_of_def
  header_size_def MINIMUM_FREE_BLOCK_def MINIMUM_HEAP_SIZE_def
  FIRSTFIT_def NEXTFIT_def BESTFIT_def WORSTFIT_def

text \<open>
  Every state that a run from \<open>initialise\<close> reaches satisfies \<open>invariant\<close>, which is
  the hypothesis on the state in the theorems below.
\<close>

lemma reachable_invariant:
  assumes "initialise memory sz algo s0 = Inr ((), s)" and "within_contract ops s"
  shows "\<exists>s' as'. run ops s = Some (Inr s') \<and> invariant s' as'"
  using initialise_invariant[OF assms(1)] run_invariant[OF _ _ assms(2)] by blast

section \<open>The claims\<close>

text \<open>
  C1.  After \<open>initialise\<close> and after every sequence of allocations and releases in
  which the caller keeps to the contract (requests of at least one byte; releases of
  the null pointer or of the payload of a block on the list), every operation
  returns without a failure, and in the state reached the list from \<open>linked_list\<close> is a
  doubly-linked chain, the sizes with their headers sum to \<open>heap_size\<close>, every size
  is positive, and no two neighbours are both free.
\<close>

theorem invariants_hold:
  assumes "initialise memory sz algo s0 = Inr ((), s)" and "within_contract ops s"
  shows "\<exists>s'. run ops s = Some (Inr s') \<and> structural_invariants s'"
  using reachable_invariant[OF assms] invariant_structural by blast

theorem invariants_hold_witness:
  "initialise 4096 2048 (Some NEXTFIT) boot = Inr ((), started) \<and>
   within_contract [Allocate 100, Allocate 200, Deallocate 4128, Allocate 50, Deallocate 4260]
     started \<and>
   (\<exists>s'. run [Allocate 100, Allocate 200, Deallocate 4128, Allocate 50, Deallocate 4260]
            started = Some (Inr s') \<and> structural_invariants s')"
proof -
  have h1: "initialise 4096 2048 (Some NEXTFIT) boot = Inr ((), started)"
    by (simp add: started_def eval_defs boot_def)
  have h2: "within_contract
      [Allocate 100, Allocate 200, Deallocate 4128, Allocate 50, Deallocate 4260] started"
    by (simp add: started_def boot_def eval_defs next_fit_loop.simps list_from.simps)
  from invariants_hold[OF h1 h2] h1 h2 show ?thesis by simp
qed


text \<open>
  C2 (as the code has it).  On a state whose list from \<open>linked_list\<close> ends at the
  null pointer, \<open>validate\<close> walks this list and returns normally exactly when every
  block is consistently linked with its neighbours (invariant 2), every size is
  positive (invariant 6), and the sizes with their headers sum, in \<open>size_t\<close>, to
  \<open>heap_size\<close> (invariant 4); otherwise it stops with a failure.  It checks nothing
  else.
\<close>

theorem validate_checks:
  assumes "block_list s = Some as"
  shows "if doubly_linked (heap s) as \<and> sizes_positive (heap s) as \<and>
            counter_of (heap s) as = heap_size s
         then validate s = Some (Inr ((), s))
         else \<exists>e. validate s = Some (Inl e)"
  using validate_result[OF assms] .

theorem validate_checks_witness:
  "block_list layout = Some [1000, 1132, 1228, 1460, 1556] \<and>
   doubly_linked (heap layout) [1000, 1132, 1228, 1460, 1556] \<and>
   sizes_positive (heap layout) [1000, 1132, 1228, 1460, 1556] \<and>
   counter_of (heap layout) [1000, 1132, 1228, 1460, 1556] = heap_size layout \<and>
   validate layout = Some (Inr ((), layout))"
proof -
  have h: "block_list layout = Some [1000, 1132, 1228, 1460, 1556]"
    by (simp add: block_list_def layout_def list_from.simps)
  have c: "doubly_linked (heap layout) [1000, 1132, 1228, 1460, 1556] \<and>
           sizes_positive (heap layout) [1000, 1132, 1228, 1460, 1556] \<and>
           counter_of (heap layout) [1000, 1132, 1228, 1460, 1556] = heap_size layout"
    by (simp add: layout_def doubly_linked_def sizes_positive_def counter_of_def size_at_def
        header_size_def)
  from validate_checks[OF h] c h show ?thesis by simp
qed

text \<open>
  C2 as stated fails: \<open>validate\<close> accepts a state with two free neighbours whose
  \<open>next_node\<close> points to no block of the list.
\<close>

theorem validate_accepts_unmerged:
  "block_list unmerged = Some [1000, 1132] \<and>
   \<not> no_adjacent_free (heap unmerged) [1000, 1132] \<and>
   next_node unmerged \<noteq> 0 \<and> next_node unmerged \<notin> set [1000, 1132] \<and>
   validate unmerged = Some (Inr ((), unmerged))"
  by (rule unmerged_validate)

text \<open>
  C9.  A release of the payload of a block whose free flag is set, in the region,
  prints the diagnostic and returns; nothing else of the state changes.
\<close>

theorem double_release_unchanged:
  assumes "linked_list s \<noteq> 0" and "a \<noteq> 0" and "is_free (heap s) a"
    and "linked_list s \<le> memory_of a"
    and "memory_of a < linked_list s + unat (heap_size s)"
  shows "deallocate (memory_of a) s =
           Inr ((), s\<lparr>stderr := stderr s @ [''Error : memory already free'' @ [CHR 0x0A]]\<rparr>)"
  using double_release_result[OF assms] .

theorem double_release_unchanged_witness:
  "linked_list layout \<noteq> 0 \<and> (1228 :: addr) \<noteq> 0 \<and> is_free (heap layout) 1228 \<and>
   linked_list layout \<le> memory_of 1228 \<and>
   memory_of 1228 < linked_list layout + unat (heap_size layout) \<and>
   deallocate (memory_of 1228) layout =
     Inr ((), layout\<lparr>stderr := stderr layout @ [''Error : memory already free'' @ [CHR 0x0A]]\<rparr>)"
proof -
  have h: "linked_list layout \<noteq> 0" "(1228 :: addr) \<noteq> 0" "is_free (heap layout) 1228"
    "linked_list layout \<le> memory_of 1228"
    "memory_of 1228 < linked_list layout + unat (heap_size layout)"
    by (simp_all add: layout_def is_free_def memory_of_def header_size_def)
  from double_release_unchanged[OF h] h show ?thesis by simp
qed


text \<open>
  C3.  When a free block \<open>a\<close> of size \<open>s\<close> serves a request of \<open>n\<close> bytes
  (\<open>0 < n \<le> s\<close>) in a state that satisfies the invariants: if
  \<open>s - n \<ge> header_size + MINIMUM_FREE_BLOCK\<close>, the block keeps its place, gets size
  \<open>n\<close> and is busy, and a new free block of size \<open>s - n - header_size\<close> stands
  between it and its old successor, linked in both directions; otherwise the block
  is busy with its size unchanged and the list is the same.  In both cases the
  payload of the block is zero.
\<close>

theorem split_law:
  assumes "invariant s as" and "a \<in> set as" and "fits (heap s) n a" and "0 < n"
  shows "\<exists>s'. allocate_node a n s = Inr (a, s') \<and> \<not> is_free (heap s') a \<and>
     (\<forall>i < unat (size_at (heap s') a). bytes s' (memory_of a + i) = 0) \<and>
     prev_at (heap s') a = prev_at (heap s) a \<and>
     (if header_size + MINIMUM_FREE_BLOCK \<le> size_at (heap s) a - n
      then size_at (heap s') a = n \<and>
           (\<exists>xs ys. as = xs @ a # ys \<and>
                    block_list s' = Some (xs @ a # (memory_of a + unat n) # ys)) \<and>
           is_free (heap s') (memory_of a + unat n) \<and>
           size_at (heap s') (memory_of a + unat n) = size_at (heap s) a - n - header_size \<and>
           next_at (heap s') a = memory_of a + unat n \<and>
           prev_at (heap s') (memory_of a + unat n) = a \<and>
           next_at (heap s') (memory_of a + unat n) = next_at (heap s) a \<and>
           (next_at (heap s) a \<noteq> 0 \<longrightarrow>
              prev_at (heap s') (next_at (heap s) a) = memory_of a + unat n)
      else size_at (heap s') a = size_at (heap s) a \<and> block_list s' = Some as \<and>
           next_at (heap s') a = next_at (heap s) a)"
  using split_result[OF assms] .

theorem split_law_witness:
  "invariant layout [1000, 1132, 1228, 1460, 1556] \<and>
   (1228 :: addr) \<in> set [1000, 1132, 1228, 1460, 1556] \<and>
   fits (heap layout) 40 1228 \<and> (0 :: size_t) < 40 \<and>
   header_size + MINIMUM_FREE_BLOCK \<le> size_at (heap layout) 1228 - 40 \<and>
   (\<exists>s'. allocate_node 1228 40 layout = Inr (1228, s') \<and> \<not> is_free (heap s') 1228 \<and>
      (\<forall>i < unat (size_at (heap s') 1228). bytes s' (memory_of 1228 + i) = 0) \<and>
      size_at (heap s') 1228 = 40 \<and>
      is_free (heap s') (memory_of 1228 + unat (40 :: size_t)) \<and>
      size_at (heap s') (memory_of 1228 + unat (40 :: size_t)) =
        size_at (heap layout) 1228 - 40 - header_size \<and>
      next_at (heap s') 1228 = memory_of 1228 + unat (40 :: size_t) \<and>
      prev_at (heap s') (memory_of 1228 + unat (40 :: size_t)) = 1228)"
proof -
  have h: "(1228 :: addr) \<in> set [1000, 1132, 1228, 1460, 1556]"
    "fits (heap layout) 40 1228" "(0 :: size_t) < 40"
    by (simp_all add: layout_def fits_def is_free_def size_at_def)
  have c: "header_size + MINIMUM_FREE_BLOCK \<le> size_at (heap layout) 1228 - 40"
    by (simp add: layout_def size_at_def header_size_def MINIMUM_FREE_BLOCK_def)
  from split_law[OF layout_invariant h] c
  obtain s' where "allocate_node 1228 40 layout = Inr (1228, s')" "\<not> is_free (heap s') 1228"
    "\<forall>i < unat (size_at (heap s') 1228). bytes s' (memory_of 1228 + i) = 0"
    "size_at (heap s') 1228 = 40"
    "is_free (heap s') (memory_of 1228 + unat (40 :: size_t))"
    "size_at (heap s') (memory_of 1228 + unat (40 :: size_t)) =
        size_at (heap layout) 1228 - 40 - header_size"
    "next_at (heap s') 1228 = memory_of 1228 + unat (40 :: size_t)"
    "prev_at (heap s') (memory_of 1228 + unat (40 :: size_t)) = 1228"
    by auto
  with layout_invariant h c show ?thesis by blast
qed

text \<open>
  C4.  A release of a busy block \<open>a\<close> in a state that satisfies the invariants
  marks it free; if the block before it exists and is free, that block absorbs
  \<open>a\<close> (its size grows by \<open>header_size + a.size\<close>) and becomes the result; then, if
  the block after \<open>a\<close> exists and is free, the result absorbs it (its size grows by
  \<open>header_size\<close> plus that size).  The list loses exactly the absorbed blocks: two
  with both neighbours free, one with exactly one, none otherwise; the other blocks
  keep their size and flag, and the invariants hold again.
\<close>

theorem coalescing_law:
  assumes "invariant s as" and "a \<in> set as" and "\<not> is_free (heap s) a"
  shows "\<exists>s' xs ys as' r.
     as = xs @ a # ys \<and> deallocate (memory_of a) s = Inr ((), s') \<and>
     (prev_free (heap s) a \<longrightarrow> xs \<noteq> [] \<and> last xs = prev_at (heap s) a) \<and>
     (next_free (heap s) a \<longrightarrow> ys \<noteq> [] \<and> hd ys = next_at (heap s) a) \<and>
     r = (if prev_free (heap s) a then prev_at (heap s) a else a) \<and>
     as' = (if prev_free (heap s) a then butlast xs else xs) @ r #
           (if next_free (heap s) a then tl ys else ys) \<and>
     block_list s' = Some as' \<and> structural_invariants s' \<and>
     is_free (heap s') r \<and>
     size_at (heap s') r =
       (if next_free (heap s) a
        then (if prev_free (heap s) a
              then size_at (heap s) (prev_at (heap s) a) + (header_size + size_at (heap s) a)
              else size_at (heap s) a) +
             (header_size + size_at (heap s) (next_at (heap s) a))
        else (if prev_free (heap s) a
              then size_at (heap s) (prev_at (heap s) a) + (header_size + size_at (heap s) a)
              else size_at (heap s) a)) \<and>
     length as' + (if prev_free (heap s) a then 1 else 0) +
       (if next_free (heap s) a then 1 else 0) = length as \<and>
     (\<forall>x \<in> set as'. x \<noteq> r \<longrightarrow> is_free (heap s') x = is_free (heap s) x \<and>
                                 size_at (heap s') x = size_at (heap s) x)"
proof -
  from release_result[OF assms] obtain s' xs ys as' r where
    f: "as = xs @ a # ys" "deallocate (memory_of a) s = Inr ((), s')"
    "prev_free (heap s) a \<longrightarrow> xs \<noteq> [] \<and> last xs = prev_at (heap s) a"
    "next_free (heap s) a \<longrightarrow> ys \<noteq> [] \<and> hd ys = next_at (heap s) a"
    "r = (if prev_free (heap s) a then prev_at (heap s) a else a)"
    "as' = (if prev_free (heap s) a then butlast xs else xs) @ r #
           (if next_free (heap s) a then tl ys else ys)"
    "invariant s' as'"
    "is_free (heap s') r"
    "size_at (heap s') r =
       (if next_free (heap s) a
        then (if prev_free (heap s) a
              then size_at (heap s) (prev_at (heap s) a) + (header_size + size_at (heap s) a)
              else size_at (heap s) a) +
             (header_size + size_at (heap s) (next_at (heap s) a))
        else (if prev_free (heap s) a
              then size_at (heap s) (prev_at (heap s) a) + (header_size + size_at (heap s) a)
              else size_at (heap s) a))"
    "length as' + (if prev_free (heap s) a then 1 else 0) +
       (if next_free (heap s) a then 1 else 0) = length as"
    "\<forall>x \<in> set as'. x \<noteq> r \<longrightarrow> is_free (heap s') x = is_free (heap s) x \<and>
                                 size_at (heap s') x = size_at (heap s) x"
    by (elim exE conjE) (rule that; assumption)
  from f(7) have b: "block_list s' = Some as'" "structural_invariants s'"
    by (simp_all add: invariant_def block_list_wf invariant_structural)
  show ?thesis
    apply (rule exI[of _ s'], rule exI[of _ xs], rule exI[of _ ys],
           rule exI[of _ as'], rule exI[of _ r])
    apply (intro conjI)
    using f b by simp_all
qed


theorem coalescing_law_witness:
  "invariant layout [1000, 1132, 1228, 1460, 1556] \<and>
   (1132 :: addr) \<in> set [1000, 1132, 1228, 1460, 1556] \<and>
   \<not> is_free (heap layout) 1132 \<and>
   prev_free (heap layout) 1132 \<and> next_free (heap layout) 1132 \<and>
   (\<exists>s' as'. deallocate (memory_of 1132) layout = Inr ((), s') \<and>
      block_list s' = Some as' \<and> structural_invariants s' \<and>
      length as' + 2 = 5 \<and> is_free (heap s') 1000 \<and>
      size_at (heap s') 1000 = 100 + (header_size + 64) + (header_size + 200))"
proof -
  have h: "(1132 :: addr) \<in> set [1000, 1132, 1228, 1460, 1556]"
    "\<not> is_free (heap layout) 1132"
    by (simp_all add: layout_def is_free_def)
  have n: "prev_free (heap layout) 1132" "next_free (heap layout) 1132"
    by (simp_all add: layout_def prev_free_def next_free_def prev_at_def next_at_def is_free_def)
  have v: "prev_at (heap layout) 1132 = 1000" "next_at (heap layout) 1132 = 1228"
    "size_at (heap layout) 1000 = 100" "size_at (heap layout) 1132 = 64"
    "size_at (heap layout) 1228 = 200"
    by (simp_all add: layout_def prev_at_def next_at_def size_at_def)
  from coalescing_law[OF layout_invariant h] obtain s' xs ys as' r where
    f: "([1000, 1132, 1228, 1460, 1556] :: addr list) = xs @ 1132 # ys" "deallocate (memory_of 1132) layout = Inr ((), s')"
    "prev_free (heap layout) 1132 \<longrightarrow> xs \<noteq> [] \<and> last xs = prev_at (heap layout) 1132"
    "next_free (heap layout) 1132 \<longrightarrow> ys \<noteq> [] \<and> hd ys = next_at (heap layout) 1132"
    "r = (if prev_free (heap layout) 1132 then prev_at (heap layout) 1132 else 1132)"
    "as' = (if prev_free (heap layout) 1132 then butlast xs else xs) @ r #
           (if next_free (heap layout) 1132 then tl ys else ys)"
    "block_list s' = Some as'" "structural_invariants s'"
    "is_free (heap s') r"
    "size_at (heap s') r =
       (if next_free (heap layout) 1132
        then (if prev_free (heap layout) 1132
              then size_at (heap layout) (prev_at (heap layout) 1132) + (header_size + size_at (heap layout) 1132)
              else size_at (heap layout) 1132) +
             (header_size + size_at (heap layout) (next_at (heap layout) 1132))
        else (if prev_free (heap layout) 1132
              then size_at (heap layout) (prev_at (heap layout) 1132) + (header_size + size_at (heap layout) 1132)
              else size_at (heap layout) 1132))"
    "length as' + (if prev_free (heap layout) 1132 then 1 else 0) +
       (if next_free (heap layout) 1132 then 1 else 0) = length ([1000, 1132, 1228, 1460, 1556] :: addr list)"
    "\<forall>x \<in> set as'. x \<noteq> r \<longrightarrow> is_free (heap s') x = is_free (heap layout) x \<and>
                                 size_at (heap s') x = size_at (heap layout) x"
    by (elim exE conjE) (rule that; assumption)
  from f(5,9,10,11) n v have "is_free (heap s') 1000"
    "size_at (heap s') 1000 = 100 + (header_size + 64) + (header_size + 200)"
    "length as' + 2 = 5"
    by simp_all
  with f(2,7,8) layout_invariant h n show ?thesis by blast
qed

text \<open>
  C5.  In every state that a run from \<open>initialise\<close> reaches, \<open>next_node\<close> is null or a
  block of the list.  A release of a busy block \<open>a\<close> of the list in such a state
  leaves \<open>next_node\<close> as the specification words it: if it was \<open>a\<close> and \<open>a\<close> is
  merged into its predecessor, it becomes \<open>a.next\<close>; if it then is the block after
  \<open>a\<close> and that block is absorbed, it becomes that block's successor; otherwise it
  does not change.  Afterwards it is again null or a block of the list.
\<close>

theorem cursor_after_release:
  assumes "initialise memory sz algo s0 = Inr ((), s1)" and "within_contract ops s1"
    and "run ops s1 = Some (Inr s)" and "block_list s = Some as"
    and "a \<in> set as" and "\<not> is_free (heap s) a"
  shows "(next_node s = 0 \<or> next_node s \<in> set as) \<and>
     (\<exists>s' as'. deallocate (memory_of a) s = Inr ((), s') \<and> block_list s' = Some as' \<and>
        next_node s' = cursor_merge_next s a (cursor_merge_prev s a) \<and>
        (next_node s' = 0 \<or> next_node s' \<in> set as'))"
proof -
  from reachable_invariant[OF assms(1,2)] assms(3) obtain as0 where "invariant s as0" by auto
  moreover from this have "as0 = as"
    using assms(4) wf_unique[of s as0 as] by (simp add: invariant_def)
  ultimately have inv: "invariant s as" by simp
  then have c0: "next_node s = 0 \<or> next_node s \<in> set as"
    by (simp add: invariant_def well_formed_def)
  from release_result[OF inv assms(5,6)] obtain s' as' where
    "deallocate (memory_of a) s = Inr ((), s')" "invariant s' as'"
    "next_node s' = cursor_merge_next s a (cursor_merge_prev s a)"
    by blast
  moreover from this(2) have "block_list s' = Some as'"
    "next_node s' = 0 \<or> next_node s' \<in> set as'"
    by (simp_all add: invariant_def block_list_wf well_formed_def)
  ultimately show ?thesis using c0 by blast
qed


theorem cursor_after_release_witness:
  "initialise 4096 2048 (Some NEXTFIT) boot = Inr ((), started) \<and>
   within_contract [Allocate 100, Allocate 200, Allocate 50] started \<and>
   run [Allocate 100, Allocate 200, Allocate 50] started = Some (Inr after_three) \<and>
   block_list after_three = Some [4096, 4228, 4460, 4542] \<and>
   (4460 :: addr) \<in> set [4096, 4228, 4460, 4542] \<and>
   \<not> is_free (heap after_three) 4460 \<and>
   next_node after_three = 4542 \<and>
   (\<exists>s' as'. deallocate (memory_of 4460) after_three = Inr ((), s') \<and>
      block_list s' = Some as' \<and> next_node s' = 0)"
proof -
  have h1: "initialise 4096 2048 (Some NEXTFIT) boot = Inr ((), started)"
    by (simp add: started_def eval_defs boot_def)
  have h2: "within_contract [Allocate 100, Allocate 200, Allocate 50] started"
    by (simp add: started_def boot_def eval_defs next_fit_loop.simps list_from.simps)
  have h3: "run [Allocate 100, Allocate 200, Allocate 50] started = Some (Inr after_three)"
    by (simp add: after_three_def started_def boot_def eval_defs next_fit_loop.simps)
  have h4: "block_list after_three = Some [4096, 4228, 4460, 4542]"
    by (simp add: after_three_def started_def boot_def eval_defs next_fit_loop.simps
        list_from.simps)
  have h5: "(4460 :: addr) \<in> set [4096, 4228, 4460, 4542]" by simp
  have h6: "\<not> is_free (heap after_three) 4460"
    by (simp add: after_three_def started_def boot_def eval_defs next_fit_loop.simps
        is_free_def)
  have c: "next_node after_three = 4542"
    "cursor_merge_next after_three 4460 (cursor_merge_prev after_three 4460) = 0"
    by (simp_all add: after_three_def started_def boot_def eval_defs next_fit_loop.simps
        cursor_merge_next_def cursor_merge_prev_def prev_free_def next_free_def
        prev_at_def next_at_def is_free_def)
  from cursor_after_release[OF h1 h2 h3 h4 h5 h6] c
  have "\<exists>s' as'. deallocate (memory_of 4460) after_three = Inr ((), s') \<and>
      block_list s' = Some as' \<and> next_node s' = 0"
    by auto
  with h1 h2 h3 h4 h5 h6 c(1) show ?thesis by blast
qed

text \<open>
  C6.  In a state that satisfies the invariants and for a request of \<open>n > 0\<close> bytes,
  next-fit reads the blocks in the order \<open>search_order\<close>: from the block of the cursor
  (from the first block when the cursor is null) to the last block, then from the
  first block up to where it started.  It reads no block twice, stops at the first
  free block of at least \<open>n\<close> bytes, serves the request from it and sets the cursor to
  its successor in the new list; when no block fits it returns the null pointer
  and leaves the state, cursor included, as it was.
\<close>

theorem next_fit_search:
  assumes "invariant s as" and "0 < n"
  shows "\<exists>xs ys vs. as = xs @ ys \<and> search_order s as = ys @ xs \<and>
           hd (search_order s as) = next_fit_start s \<and>
           next_fit_visits n (next_fit_start s) (next_fit_start s) [] s = Some vs \<and>
           vs = visited (heap s) n (search_order s as) \<and> distinct vs \<and> set vs \<subseteq> set as \<and>
           (case find (fits (heap s) n) (search_order s as) of
              None \<Rightarrow> allocate_next_fit n s = Some (Inr (0, s))
            | Some r \<Rightarrow>
                \<exists>s1. allocate_node r n s = Inr (r, s1) \<and>
                  allocate_next_fit n s =
                    Some (Inr (memory_of r, s1\<lparr>next_node := next_at (heap s1) r\<rparr>)))"
  using next_fit_result[OF assms] .

theorem next_fit_search_witness:
  "invariant layout_at_C [1000, 1132, 1228, 1460, 1556] \<and> (0 :: size_t) < 40 \<and>
   search_order layout_at_C [1000, 1132, 1228, 1460, 1556] = [1228, 1460, 1556, 1000, 1132] \<and>
   find (fits (heap layout_at_C) 40) [1228, 1460, 1556, 1000, 1132] = Some 1228 \<and>
   next_fit_visits 40 (next_fit_start layout_at_C) (next_fit_start layout_at_C) []
     layout_at_C = Some [1228] \<and>
   (\<exists>s1. allocate_node 1228 40 layout_at_C = Inr (1228, s1) \<and>
      allocate_next_fit 40 layout_at_C =
        Some (Inr (memory_of 1228, s1\<lparr>next_node := next_at (heap s1) 1228\<rparr>)))"
proof -
  have h1: "invariant layout_at_C [1000, 1132, 1228, 1460, 1556]"
    by (simp add: invariant_def well_formed_def layout_at_C_def layout_def chain_Cons
        tiles_Cons is_free_def header_size_def)
  have h2: "(0 :: size_t) < 40" by simp
  have so: "search_order layout_at_C [1000, 1132, 1228, 1460, 1556] =
              [1228, 1460, 1556, 1000, 1132]"
    by (simp add: search_order_def layout_at_C_def layout_def)
  have fi: "find (fits (heap layout_at_C) 40) [1228, 1460, 1556, 1000, 1132] = Some 1228"
    by (simp add: layout_at_C_def layout_def fits_def is_free_def size_at_def)
  have vi: "visited (heap layout_at_C) 40 [1228, 1460, 1556, 1000, 1132] = [1228]"
    by (simp add: visited_def layout_at_C_def layout_def fits_def is_free_def size_at_def)
  from next_fit_search[OF h1 h2] so fi vi
  have "next_fit_visits 40 (next_fit_start layout_at_C) (next_fit_start layout_at_C) []
          layout_at_C = Some [1228] \<and>
        (\<exists>s1. allocate_node 1228 40 layout_at_C = Inr (1228, s1) \<and>
          allocate_next_fit 40 layout_at_C =
            Some (Inr (memory_of 1228, s1\<lparr>next_node := next_at (heap s1) 1228\<rparr>)))"
    by auto
  with h1 h2 so fi show ?thesis by blast
qed


text \<open>
  C7.  In a state that satisfies the invariants and for a request of \<open>n > 0\<close> bytes,
  best-fit serves the request from a free block of at least \<open>n\<close> bytes such that no
  such block is smaller and, among those of the same size, none has a lower
  address; when no block fits it returns the null pointer and leaves the state as
  it was.
\<close>

theorem best_fit_choice:
  assumes "invariant s as" and "0 < n"
  shows "if \<exists>b \<in> set as. fits (heap s) n b
         then \<exists>r s'. allocate_best_fit n s = Some (Inr (memory_of r, s')) \<and>
                allocate_node r n s = Inr (r, s') \<and>
                r \<in> set as \<and> fits (heap s) n r \<and>
                (\<forall>b \<in> set as. fits (heap s) n b \<longrightarrow>
                    size_at (heap s) r \<le> size_at (heap s) b \<and>
                    (size_at (heap s) b = size_at (heap s) r \<longrightarrow> r \<le> b))
         else allocate_best_fit n s = Some (Inr (0, s))"
  using best_fit_result[OF assms] .

theorem best_fit_choice_witness:
  "invariant layout [1000, 1132, 1228, 1460, 1556] \<and> (0 :: size_t) < 40 \<and>
   (\<exists>b \<in> set [1000, 1132, 1228, 1460, 1556]. fits (heap layout) 40 b) \<and>
   (\<exists>r s'. allocate_best_fit 40 layout = Some (Inr (memory_of r, s')) \<and>
      allocate_node r 40 layout = Inr (r, s') \<and>
      r \<in> set [1000, 1132, 1228, 1460, 1556] \<and> fits (heap layout) 40 r \<and>
      (\<forall>b \<in> set [1000, 1132, 1228, 1460, 1556]. fits (heap layout) 40 b \<longrightarrow>
          size_at (heap layout) r \<le> size_at (heap layout) b \<and>
          (size_at (heap layout) b = size_at (heap layout) r \<longrightarrow> r \<le> b)))"
proof -
  have h2: "(0 :: size_t) < 40" by simp
  have ex: "\<exists>b \<in> set [1000, 1132, 1228, 1460, 1556]. fits (heap layout) 40 b"
    by (simp add: layout_def fits_def is_free_def size_at_def)
  from best_fit_choice[OF layout_invariant h2] ex layout_invariant h2
  show ?thesis by (simp only: if_True)
qed

text \<open>
  C8.  In a state that satisfies the invariants and for a request of \<open>n > 0\<close> bytes,
  a free block has a size above \<open>n - 1\<close> exactly when its size is at least \<open>n\<close>, and
  worst-fit serves the request from such a block such that no such block is larger
  and, among those of the same size, none has a lower address; when no block fits
  it returns the null pointer and leaves the state as it was.
\<close>

theorem worst_fit_choice:
  assumes "invariant s as" and "0 < n"
  shows "(\<forall>b. (is_free (heap s) b \<and> n - 1 < size_at (heap s) b) = fits (heap s) n b) \<and>
        (if \<exists>b \<in> set as. fits (heap s) n b
         then \<exists>r s'. allocate_worst_fit n s = Some (Inr (memory_of r, s')) \<and>
                allocate_node r n s = Inr (r, s') \<and>
                r \<in> set as \<and> fits (heap s) n r \<and>
                (\<forall>b \<in> set as. fits (heap s) n b \<longrightarrow>
                    size_at (heap s) b \<le> size_at (heap s) r \<and>
                    (size_at (heap s) b = size_at (heap s) r \<longrightarrow> r \<le> b))
         else allocate_worst_fit n s = Some (Inr (0, s)))"
  using worst_fit_result[OF assms] .

theorem worst_fit_choice_witness:
  "invariant layout [1000, 1132, 1228, 1460, 1556] \<and> (0 :: size_t) < 40 \<and>
   (\<exists>b \<in> set [1000, 1132, 1228, 1460, 1556]. fits (heap layout) 40 b) \<and>
   (\<exists>r s'. allocate_worst_fit 40 layout = Some (Inr (memory_of r, s')) \<and>
      allocate_node r 40 layout = Inr (r, s') \<and>
      r \<in> set [1000, 1132, 1228, 1460, 1556] \<and> fits (heap layout) 40 r \<and>
      (\<forall>b \<in> set [1000, 1132, 1228, 1460, 1556]. fits (heap layout) 40 b \<longrightarrow>
          size_at (heap layout) b \<le> size_at (heap layout) r \<and>
          (size_at (heap layout) b = size_at (heap layout) r \<longrightarrow> r \<le> b)))"
proof -
  have h2: "(0 :: size_t) < 40" by simp
  have ex: "\<exists>b \<in> set [1000, 1132, 1228, 1460, 1556]. fits (heap layout) 40 b"
    by (simp add: layout_def fits_def is_free_def size_at_def)
  from worst_fit_choice[OF layout_invariant h2, THEN conjunct2] ex layout_invariant h2
  show ?thesis by (simp only: if_True)
qed

text \<open>
  C10.  In a state that satisfies the invariants and whose cursor is null, and for a
  request of \<open>n > 0\<close> bytes, next-fit returns what first-fit returns, and the state
  it leaves is the one first-fit leaves, but for \<open>next_node\<close>, which it sets to the
  successor of the chosen block when there is one; when the result is the null
  pointer both leave the state as it was.
\<close>

theorem next_fit_unset_is_first_fit:
  assumes "invariant s as" and "0 < n" and "next_node s = 0"
  shows "\<exists>p s1. allocate_first_fit n s = Some (Inr (p, s1)) \<and>
           allocate_next_fit n s =
             Some (Inr (p, if p = 0 then s1
                           else s1\<lparr>next_node := next_at (heap s1) (p - unat header_size)\<rparr>)) \<and>
           (p = 0 \<longrightarrow> s1 = s)"
  using next_fit_unset_result[OF assms] .

theorem next_fit_unset_is_first_fit_witness:
  "invariant layout [1000, 1132, 1228, 1460, 1556] \<and> (0 :: size_t) < 40 \<and>
   next_node layout = 0 \<and>
   (\<exists>p s1. allocate_first_fit 40 layout = Some (Inr (p, s1)) \<and>
           allocate_next_fit 40 layout =
             Some (Inr (p, if p = 0 then s1
                           else s1\<lparr>next_node := next_at (heap s1) (p - unat header_size)\<rparr>)) \<and>
           (p = 0 \<longrightarrow> s1 = layout))"
proof -
  have h2: "(0 :: size_t) < 40" by simp
  have h3: "next_node layout = 0" by (simp add: layout_def)
  from next_fit_unset_is_first_fit[OF layout_invariant h2 h3] layout_invariant h2 h3
  show ?thesis by blast
qed

end
